theory Spec2Isabelle
  imports Main "HOL-Library.Word"
begin

section \<open>The buffer cache of kernel/bio.c\<close>

text \<open>
  The cache of \<^verbatim>\<open>kernel/bio.c\<close> is a pool of buffers hashed into \<^verbatim>\<open>NBUCKET\<close>
  chains, each chain guarded by a spin lock. The model is sequential: one CPU runs one
  call at a time on an explicit kernel state. Unsigned C integers (\<^verbatim>\<open>uint\<close>) are 32-bit
  words and the reference count is a word of some width, so that \<^verbatim>\<open>refcnt--\<close> and
  \<^verbatim>\<open>refcnt++\<close> wrap; the indices of \<^verbatim>\<open>can_lock\<close> are C \<^verbatim>\<open>int\<close>s that stay far below the
  overflow range and are modelled as \<open>int\<close>.
\<close>

type_synonym uint = "32 word"

type_synonym block = "8 word list"

definition NBUCKET :: nat where
  "NBUCKET = 13"

subsection \<open>Data\<close>

text \<open>
  Modelled from the spec: \<^verbatim>\<open>struct buf\<close> (declared in kernel/buf.h, which is not among the
  sources). The fields are the ones bio.c reads and writes and the spec's Buffer lists:
  identity (\<open>dev\<close>, \<open>blockno\<close>), \<open>valid\<close>, \<open>refcnt\<close>, the idle timestamp \<open>time\<close>, the
  payload \<open>data\<close> and the exclusive content lock \<open>lock\<close>. \<open>dev\<close>, \<open>blockno\<close> and
  \<open>time\<close> are assigned from and compared with \<^verbatim>\<open>uint\<close> variables in bio.c. The type of
  \<open>refcnt\<close> is the parameter \<open>'r\<close>: bio.c only increments, decrements, sets and tests
  it, and its functions below take it to be an unsigned integer of some width \<open>w\<close>, a
  \<open>'w word\<close>. The content lock is a sleep lock (kernel/sleeplock.c, not among the
  sources): it is free (\<open>None\<close>) or held by one process (\<open>Some pid\<close>). The \<^verbatim>\<open>next\<close>
  link is represented by the chains of \<open>bcache_bucket\<close> below.
\<close>

record 'r buf =
  valid :: int
  dev :: uint
  blockno :: uint
  lock :: "nat option"
  refcnt :: 'r
  time :: uint
  data :: block

datatype disk_op = DiskRead uint uint | DiskWrite uint uint block

text \<open>
  The kernel state that bio.c touches. \<open>bcache_lock\<close>, \<open>bcache_buf\<close> and
  \<open>bcache_bucket\<close> are the three members of the global \<^verbatim>\<open>bcache\<close>:
  \<^item> \<open>bcache_lock ! i\<close> tells whether the running CPU holds \<^verbatim>\<open>bcache.lock[i]\<close>;
  \<^item> \<open>bcache_buf ! b\<close> is \<^verbatim>\<open>bcache.buf[b]\<close>; a buffer pointer is its index \<open>b\<close>;
  \<^item> \<open>bcache_bucket ! i\<close> is the chain that starts at \<^verbatim>\<open>bcache.bucket[i].next\<close> and
    follows \<^verbatim>\<open>next\<close> to the null pointer, as the list of the buffers met on the way.
  \<open>ticks\<close> is the kernel's global tick counter and \<open>disk\<close> the block device.
  \<open>disk_log\<close>, \<open>lock_log\<close> and \<open>write_log\<close> are observation logs that the C code does
  not have: the device operations performed so far, the vector of held shard locks after
  every \<^verbatim>\<open>acquire\<close> and \<^verbatim>\<open>release\<close>, and every store to a field of a buffer, as the
  buffer's index, the buffer as stored, and the vector of shard locks held at that instant.
\<close>

record 'r kernel =
  bcache_lock :: "bool list"
  bcache_buf :: "'r buf list"
  bcache_bucket :: "nat list list"
  ticks :: uint
  disk :: "uint \<times> uint \<Rightarrow> block"
  disk_log :: "disk_op list"
  lock_log :: "bool list list"
  write_log :: "(nat \<times> 'r buf \<times> bool list) list"

text \<open>
  A call ends by returning, or it does not return: the kernel panics, the caller sleeps
  on a content lock that another process holds, or a null pointer is dereferenced. The
  state reached at that point is kept with the reason.
\<close>

datatype abort = Panic string | Sleeps | NullDeref

subsection \<open>Primitives used by bio.c\<close>

text \<open>
  Modelled from the spec: the spin lock primitives \<^verbatim>\<open>acquire\<close>, \<^verbatim>\<open>release\<close> and
  \<^verbatim>\<open>holding\<close> of kernel/spinlock.c (not among the sources), seen from the running CPU:
  a shard's metadata lock is taken, given back, and tested.
\<close>

definition acquire :: "nat \<Rightarrow> ('w::len) word kernel \<Rightarrow> 'w word kernel" where
  "acquire i s =
     (let l = (bcache_lock s)[i := True]
      in s\<lparr>bcache_lock := l, lock_log := lock_log s @ [l]\<rparr>)"

definition release :: "nat \<Rightarrow> ('w::len) word kernel \<Rightarrow> 'w word kernel" where
  "release i s =
     (let l = (bcache_lock s)[i := False]
      in s\<lparr>bcache_lock := l, lock_log := lock_log s @ [l]\<rparr>)"

definition holding :: "nat \<Rightarrow> ('w::len) word kernel \<Rightarrow> bool" where
  "holding i s = bcache_lock s ! i"

text \<open>
  A store to fields of \<^verbatim>\<open>bcache.buf[b]\<close>: \<open>f\<close> gives the buffer with the fields assigned.
\<close>

definition upd_buf ::
  "nat \<Rightarrow> (('w::len) word buf \<Rightarrow> 'w word buf) \<Rightarrow>
     'w word kernel \<Rightarrow> 'w word kernel" where
  "upd_buf b f s =
     (let x = f (bcache_buf s ! b)
      in s\<lparr>bcache_buf := (bcache_buf s)[b := x],
           write_log := write_log s @ [(b, x, bcache_lock s)]\<rparr>)"

text \<open>
  Modelled from the spec: the sleep lock primitives \<^verbatim>\<open>acquiresleep\<close>,
  \<^verbatim>\<open>releasesleep\<close> and \<^verbatim>\<open>holdingsleep\<close> of kernel/sleeplock.c (not among the sources),
  for the calling process \<open>p\<close>. Acquiring a lock that is held suspends the caller.
\<close>

definition acquiresleep ::
  "nat \<Rightarrow> nat \<Rightarrow> ('w::len) word kernel \<Rightarrow>
     (abort \<times> 'w word kernel) + 'w word kernel" where
  "acquiresleep p b s =
     (case lock (bcache_buf s ! b) of
        None \<Rightarrow> Inr (upd_buf b (\<lambda>x. x\<lparr>lock := Some p\<rparr>) s)
      | Some q \<Rightarrow> Inl (Sleeps, s))"

definition releasesleep ::
  "nat \<Rightarrow> ('w::len) word kernel \<Rightarrow> 'w word kernel" where
  "releasesleep b s = upd_buf b (\<lambda>x. x\<lparr>lock := None\<rparr>) s"

definition holdingsleep ::
  "nat \<Rightarrow> nat \<Rightarrow> ('w::len) word kernel \<Rightarrow> bool" where
  "holdingsleep p b s = (lock (bcache_buf s ! b) = Some p)"

text \<open>
  Modelled from the spec: \<^verbatim>\<open>virtio_disk_rw(b, write)\<close> of kernel/virtio_disk.c (not among
  the sources), the synchronous Disk Interface: a read copies the device's block
  \<open>(dev, blockno)\<close> into the buffer's payload, a write copies the payload to the device.
\<close>

definition virtio_disk_rw ::
  "nat \<Rightarrow> int \<Rightarrow> ('w::len) word kernel \<Rightarrow> 'w word kernel" where
  "virtio_disk_rw b write s =
     (let x = bcache_buf s ! b in
      if write = 0 then
        (upd_buf b (\<lambda>y. y\<lparr>data := disk s (dev x, blockno x)\<rparr>) s)
          \<lparr>disk_log := disk_log s @ [DiskRead (dev x) (blockno x)]\<rparr>
      else
        s\<lparr>disk := (disk s)((dev x, blockno x) := data x),
          disk_log := disk_log s @ [DiskWrite (dev x) (blockno x) (data x)]\<rparr>)"

subsection \<open>binit\<close>

text \<open>
  \<^verbatim>\<open>bcache\<close> is a zero-initialised global; \<^verbatim>\<open>binit\<close> links all \<^verbatim>\<open>NBUF\<close> buffers into
  the chain of bucket 0. \<^verbatim>\<open>NBUF\<close> comes from kernel/param.h (not among the sources) and
  is a parameter.
\<close>

definition zero_buf :: "('w::len) word buf" where
  "zero_buf = \<lparr>valid = 0, dev = 0, blockno = 0, lock = None, refcnt = 0, time = 0, data = []\<rparr>"

definition binit ::
  "nat \<Rightarrow> uint \<Rightarrow> (uint \<times> uint \<Rightarrow> block) \<Rightarrow>
     ('w::len) word kernel" where
  "binit NBUF t dsk =
     \<lparr>bcache_lock = replicate NBUCKET False,
      bcache_buf = replicate NBUF zero_buf,
      bcache_bucket = [0..<NBUF] # replicate (NBUCKET - 1) [],
      ticks = t, disk = dsk, disk_log = [], lock_log = [], write_log = []\<rparr>"

subsection \<open>can\_lock\<close>

definition can_lock :: "int \<Rightarrow> int \<Rightarrow> int" where
  "can_lock cur_idx req_idx =
     (let mid = int NBUCKET div 2 in
      if cur_idx = req_idx then 0
      else if cur_idx < req_idx then (if req_idx \<le> cur_idx + mid then 0 else 1)
      else (if cur_idx \<ge> req_idx + mid then 0 else 1))"

subsection \<open>bget\<close>

text \<open>The shard of a block: \<^verbatim>\<open>int bucket_id = blockno % NBUCKET\<close>, an unsigned remainder.\<close>

definition bucket_of :: "uint \<Rightarrow> nat" where
  "bucket_of bn = unat (bn mod 13)"

text \<open>Lines 88 to 98: the walk along the target chain, looking for the block.\<close>

fun lookup ::
  "('w::len) word buf list \<Rightarrow> uint \<Rightarrow> uint \<Rightarrow>
     nat list \<Rightarrow> nat option" where
  "lookup bs d bn [] = None"
| "lookup bs d bn (b # rest) =
     (if dev (bs ! b) = d \<and> blockno (bs ! b) = bn then Some b else lookup bs d bn rest)"

text \<open>
  Lines 111 to 123: the walk along the chain of bucket \<open>j\<close>, carrying \<^verbatim>\<open>index\<close>,
  \<^verbatim>\<open>min_tick\<close> and the state (only its locks change).
\<close>

fun scan_chain ::
  "int \<Rightarrow> nat list \<Rightarrow>
     int \<times> uint \<times> ('w::len) word kernel \<Rightarrow> int \<times> uint \<times> 'w word kernel" where
  "scan_chain j [] (index, min_tick, s) = (index, min_tick, s)"
| "scan_chain j (b # rest) (index, min_tick, s) =
     (if refcnt (bcache_buf s ! b) = 0 \<and> time (bcache_buf s ! b) < min_tick then
        scan_chain j rest
          (j, time (bcache_buf s ! b),
           if index \<noteq> -1 \<and> index \<noteq> j \<and> holding (nat index) s
           then release (nat index) s else s)
      else scan_chain j rest (index, min_tick, s))"

text \<open>Lines 105 to 127: one round of the \<^verbatim>\<open>for\<close> loop over the buckets.\<close>

definition scan_bucket ::
  "int \<Rightarrow> int \<Rightarrow>
     int \<times> uint \<times> ('w::len) word kernel \<Rightarrow> int \<times> uint \<times> 'w word kernel" where
  "scan_bucket bucket_id j st =
     (case st of (index, min_tick, s) \<Rightarrow>
        if can_lock bucket_id j = 0 then (index, min_tick, s)
        else
          (let s1 = acquire (nat j) s in
           case scan_chain j (bcache_bucket s1 ! nat j) (index, min_tick, s1) of
             (index', min_tick', s2) \<Rightarrow>
               (index', min_tick',
                if j \<noteq> index' \<and> holding (nat j) s2 then release (nat j) s2 else s2)))"

text \<open>Lines 102 to 128: the whole scan, from \<^verbatim>\<open>index = -1\<close> and \<^verbatim>\<open>min_tick = 0xffffffff\<close>.\<close>

definition scan ::
  "int \<Rightarrow> ('w::len) word kernel \<Rightarrow> int \<times> uint \<times> 'w word kernel" where
  "scan bucket_id s =
     fold (scan_bucket bucket_id) (map int [0..<NBUCKET]) (-1, 0xffffffff, s)"

text \<open>
  Lines 136 to 150: the walk along the donor chain up to the first buffer with
  \<^verbatim>\<open>refcnt == 0\<close> and \<^verbatim>\<open>time == min_tick\<close>; it gives that buffer and the chain without
  it, or nothing when the walk reaches the end of the chain.
\<close>

fun unlink ::
  "('w::len) word buf list \<Rightarrow> uint \<Rightarrow> nat list \<Rightarrow>
     (nat \<times> nat list) option" where
  "unlink bs min_tick [] = None"
| "unlink bs min_tick (b # rest) =
     (if refcnt (bs ! b) = 0 \<and> time (bs ! b) = min_tick then Some (b, rest)
      else map_option (\<lambda>(m, r). (m, b # r)) (unlink bs min_tick rest))"

text \<open>
  Lines 134 to 161: the move of the victim from bucket \<open>index\<close> to bucket
  \<open>bucket_id\<close>. When the donor walk finds no buffer, \<^verbatim>\<open>move\<close> stays null and
  \<^verbatim>\<open>move->next = 0\<close> dereferences it.
\<close>

definition move_buf ::
  "nat \<Rightarrow> uint \<Rightarrow> uint \<Rightarrow> nat \<Rightarrow> int \<Rightarrow> uint \<Rightarrow> ('w::len) word kernel \<Rightarrow>
     (abort \<times> 'w word kernel) + ('w word kernel \<times> nat)" where
  "move_buf p d bn bucket_id index min_tick s =
     (case unlink (bcache_buf s) min_tick (bcache_bucket s ! nat index) of
        None \<Rightarrow> Inl (NullDeref, s)
      | Some (move, rest) \<Rightarrow>
          (let s1 = upd_buf move (\<lambda>x. x\<lparr>dev := d, blockno := bn, valid := 0, refcnt := 1\<rparr>) s;
               s2 = s1\<lparr>bcache_bucket := (bcache_bucket s1)[nat index := rest]\<rparr>;
               s3 = release (nat index) s2;
               s4 = s3\<lparr>bcache_bucket :=
                        (bcache_bucket s3)[bucket_id := bcache_bucket s3 ! bucket_id @ [move]]\<rparr>;
               s5 = release bucket_id s4
           in case acquiresleep p move s5 of
                Inl e \<Rightarrow> Inl e
              | Inr s6 \<Rightarrow> Inr (s6, move)))"

text \<open>\<^verbatim>\<open>bget(dev, blockno)\<close>, called by process \<open>p\<close>.\<close>

definition bget ::
  "nat \<Rightarrow> uint \<Rightarrow> uint \<Rightarrow> ('w::len) word kernel \<Rightarrow>
     (abort \<times> 'w word kernel) + ('w word kernel \<times> nat)" where
  "bget p d bn s =
     (let bucket_id = bucket_of bn;
          s1 = acquire bucket_id s
      in case lookup (bcache_buf s1) d bn (bcache_bucket s1 ! bucket_id) of
           Some b \<Rightarrow>
             (let s2 = upd_buf b (\<lambda>x. x\<lparr>refcnt := refcnt x + 1\<rparr>) s1;
                  s3 = release bucket_id s2
              in case acquiresleep p b s3 of
                   Inl e \<Rightarrow> Inl e
                 | Inr s4 \<Rightarrow> Inr (s4, b))
         | None \<Rightarrow>
             (case scan (int bucket_id) s1 of
                (index, min_tick, s2) \<Rightarrow>
                  if index = -1 then Inl (Panic ''bget: no buffers'', s2)
                  else move_buf p d bn bucket_id index min_tick s2))"

subsection \<open>bread, bwrite, brelse, bpin, bunpin\<close>

definition bread ::
  "nat \<Rightarrow> uint \<Rightarrow> uint \<Rightarrow> ('w::len) word kernel \<Rightarrow>
     (abort \<times> 'w word kernel) + ('w word kernel \<times> nat)" where
  "bread p d bn s =
     (case bget p d bn s of
        Inl e \<Rightarrow> Inl e
      | Inr (s1, b) \<Rightarrow>
          if valid (bcache_buf s1 ! b) = 0 then
            (let s2 = virtio_disk_rw b 0 s1;
                 s3 = upd_buf b (\<lambda>x. x\<lparr>valid := 1\<rparr>) s2
             in Inr (s3, b))
          else Inr (s1, b))"

definition bwrite ::
  "nat \<Rightarrow> nat \<Rightarrow> ('w::len) word kernel \<Rightarrow>
     (abort \<times> 'w word kernel) + 'w word kernel" where
  "bwrite p b s =
     (if \<not> holdingsleep p b s then Inl (Panic ''bwrite'', s)
      else Inr (virtio_disk_rw b 1 s))"

definition brelse ::
  "nat \<Rightarrow> nat \<Rightarrow> ('w::len) word kernel \<Rightarrow>
     (abort \<times> 'w word kernel) + 'w word kernel" where
  "brelse p b s =
     (if \<not> holdingsleep p b s then Inl (Panic ''brelse'', s)
      else
        (let s1 = releasesleep b s;
             bucket_id = bucket_of (blockno (bcache_buf s1 ! b));
             s2 = acquire bucket_id s1;
             s3 = upd_buf b (\<lambda>x. x\<lparr>refcnt := refcnt x - 1\<rparr>) s2;
             s4 = (if refcnt (bcache_buf s3 ! b) = 0
                   then upd_buf b (\<lambda>x. x\<lparr>time := ticks s3\<rparr>) s3 else s3)
         in Inr (release bucket_id s4)))"

definition bpin :: "nat \<Rightarrow> ('w::len) word kernel \<Rightarrow> 'w word kernel" where
  "bpin b s =
     (let bucket_id = bucket_of (blockno (bcache_buf s ! b));
          s1 = acquire bucket_id s;
          s2 = upd_buf b (\<lambda>x. x\<lparr>refcnt := refcnt x + 1\<rparr>) s1
      in release bucket_id s2)"

definition bunpin :: "nat \<Rightarrow> ('w::len) word kernel \<Rightarrow> 'w word kernel" where
  "bunpin b s =
     (let bucket_id = bucket_of (blockno (bcache_buf s ! b));
          s1 = acquire bucket_id s;
          s2 = upd_buf b (\<lambda>x. x\<lparr>refcnt := refcnt x - 1\<rparr>) s1
      in release bucket_id s2)"

subsection \<open>Reading results and states\<close>

text \<open>The buffer a call returned, the state a call ended in, and whether it panicked.\<close>

fun returned ::
  "(abort \<times> ('w::len) word kernel) + ('w word kernel \<times> nat) \<Rightarrow> nat option" where
  "returned (Inr (s, b)) = Some b"
| "returned (Inl e) = None"

fun final_state ::
  "(abort \<times> ('w::len) word kernel) + ('w word kernel \<times> nat) \<Rightarrow>
     'w word kernel" where
  "final_state (Inr (s, b)) = s"
| "final_state (Inl (e, s)) = s"

fun panicked :: "(abort \<times> ('w::len) word kernel) + 'a \<Rightarrow> bool" where
  "panicked (Inl (Panic m, s)) = True"
| "panicked r = False"

text \<open>The number of shard locks held in a lock vector.\<close>

definition locks_held :: "bool list \<Rightarrow> nat" where
  "locks_held l = length (filter (\<lambda>x. x) l)"

text \<open>The set of the shard locks held in a lock vector.\<close>

definition held :: "bool list \<Rightarrow> nat set" where
  "held l = {i. i < length l \<and> l ! i}"

text \<open>
  The shape that the C declarations and the pointer structure give the state: the lock
  and bucket arrays have \<^verbatim>\<open>NBUCKET\<close> entries, every chain link points into
  \<^verbatim>\<open>bcache.buf\<close>, and, a buffer having one \<^verbatim>\<open>next\<close> field and every chain ending in
  the null pointer, no buffer is met twice along the chains.
\<close>

definition wf_bcache :: "('w::len) word kernel \<Rightarrow> bool" where
  "wf_bcache s \<longleftrightarrow>
     length (bcache_lock s) = NBUCKET \<and> length (bcache_bucket s) = NBUCKET \<and>
     (\<forall>b \<in> set (concat (bcache_bucket s)). b < length (bcache_buf s)) \<and>
     distinct (concat (bcache_bucket s))"

text \<open>
  The owning shard of a buffer is the shard whose chain it is on. The spec's rule of
  membership: every buffer is on the chain of the shard that its block number, taken
  modulo \<^verbatim>\<open>NBUCKET\<close>, names.
\<close>

definition chains_hashed :: "('w::len) word kernel \<Rightarrow> bool" where
  "chains_hashed s \<longleftrightarrow>
     (\<forall>j \<in> {0..<length (bcache_bucket s)}. \<forall>b \<in> set (bcache_bucket s ! j).
        unat (blockno (bcache_buf s ! b)) mod NBUCKET = j)"

text \<open>A miss: the walk along the target chain does not find the block.\<close>

definition miss ::
  "uint \<Rightarrow> uint \<Rightarrow> ('w::len) word kernel \<Rightarrow> bool" where
  "miss d bn s \<longleftrightarrow> lookup (bcache_buf s) d bn (bcache_bucket s ! bucket_of bn) = None"

text \<open>
  The shards that a scan for a block of shard \<open>c\<close> may lock, in scan order, and the
  buffers it can pick: the unreferenced buffers on the chains of those shards.
\<close>

definition lockable :: "nat \<Rightarrow> nat list" where
  "lockable c = filter (\<lambda>j. can_lock (int c) (int j) = 1) [0..<NBUCKET]"

definition candidates :: "nat \<Rightarrow> ('w::len) word kernel \<Rightarrow> nat list" where
  "candidates c s =
     filter (\<lambda>b. refcnt (bcache_buf s ! b) = 0)
       (concat (map (\<lambda>j. bcache_bucket s ! j) (lockable c)))"

subsection \<open>Example states\<close>

text \<open>
  A pool of five buffers of device 1: buffer 0 (block 0, idle since tick 1) in shard 0,
  buffer 4 (block 1, held by process 2) in shard 1, buffer 1 (block 7, idle since tick 5)
  in shard 7, and in shard 8 buffer 2 (block 8, idle since tick 9) and buffer 3
  (block 21, pinned once, last idle at tick 3).
\<close>

definition idle_buf ::
  "uint \<Rightarrow> uint \<Rightarrow> uint \<Rightarrow> ('w::len) word buf" where
  "idle_buf d bn t =
     \<lparr>valid = 1, dev = d, blockno = bn, lock = None, refcnt = 0, time = t, data = []\<rparr>"

definition empty_disk :: "uint \<times> uint \<Rightarrow> block" where
  "empty_disk x = []"

definition ex_pool :: "32 word kernel" where
  "ex_pool =
     \<lparr>bcache_lock = replicate 13 False,
      bcache_buf = [idle_buf 1 0 1, idle_buf 1 7 5, idle_buf 1 8 9,
                    (idle_buf 1 21 3)\<lparr>refcnt := 1\<rparr>,
                    (idle_buf 1 1 0)\<lparr>refcnt := 1, lock := Some 2\<rparr>],
      bcache_bucket = [[0], [4], [], [], [], [], [], [1], [2, 3], [], [], [], []],
      ticks = 20, disk = empty_disk, disk_log = [], lock_log = [], write_log = []\<rparr>"

text \<open>The state after \<^verbatim>\<open>binit\<close> with the spec's pool size of 30 buffers.\<close>

definition boot_pool :: "32 word kernel" where
  "boot_pool = binit 30 0 empty_disk"

section \<open>The lock-order rule\<close>

text \<open>
  C3, as stated, does not hold in its last part. The rule excludes that two shards lock
  each other directly, but the claim concludes that no two shards are mutually reachable
  under the rule and that no lock cycle can form: shard 0 may lock shard 7, shard 7 may
  lock shard 2, and shard 2 may lock shard 0.
\<close>

theorem can_lock_cycle_counterexample:
  "can_lock 0 7 = 1 \<and> can_lock 7 2 = 1 \<and> can_lock 2 0 = 1"
  by (simp add: can_lock_def NBUCKET_def)

text \<open>
  C3, amended. For shard indices \<open>c\<close> and \<open>r\<close> in \<open>[0, NBUCKET)\<close>: \<open>can_lock c r\<close> is 1
  only if the forward cyclic distance from \<open>c\<close> to \<open>r\<close>, \<open>(r - c) mod NBUCKET\<close>, exceeds
  \<open>NBUCKET div 2\<close>; \<open>can_lock c r\<close> and \<open>can_lock r c\<close> are never both 1, so that no two
  shards may lock each other directly; and \<open>can_lock c c\<close> is 0. Nothing is said of longer
  cycles.
\<close>

theorem can_lock_directional:
  assumes "0 \<le> c" "c < int NBUCKET" "0 \<le> r" "r < int NBUCKET"
  shows "(can_lock c r = 1 \<longrightarrow> (r - c) mod int NBUCKET > int NBUCKET div 2)
       \<and> \<not> (can_lock c r = 1 \<and> can_lock r c = 1)
       \<and> can_lock c c = 0"
proof -
  have fwd: "(r - c) mod 13 = (if c \<le> r then r - c else r - c + 13)"
  proof (cases "c \<le> r")
    case True
    then show ?thesis
      using assms by (simp add: NBUCKET_def mod_pos_pos_trivial)
  next
    case False
    have wrap: "(r - c + 13) mod 13 = r - c + 13"
      by (rule mod_pos_pos_trivial) (use False assms in \<open>auto simp: NBUCKET_def\<close>)
    have "(r - c) mod 13 = (r - c + 13) mod 13"
      by simp
    then show ?thesis
      using False wrap by (simp only: if_False)
  qed
  show ?thesis
    using assms by (auto simp: can_lock_def NBUCKET_def Let_def fwd split: if_splits)
qed

theorem can_lock_directional_witness:
  "can_lock 0 7 = 1 \<and> (7 - 0) mod int NBUCKET > int NBUCKET div 2
   \<and> can_lock 7 0 = 0 \<and> can_lock 0 0 = 0"
  using can_lock_directional [of 0 7]
  by (simp add: can_lock_def NBUCKET_def)

text \<open>
  The rule is applied to the target shard only, while a scanner also holds the lock of
  its best candidate's shard when it takes the next lock. In \<open>ex_pool\<close>, a request for
  block 13 takes the lock of shard 8 while it holds that of shard 7, and a request for
  block 34 takes the lock of shard 7 while it holds that of shard 8.
\<close>

lemma bget_lock_order_inversion:
  "lock_log (final_state (bget 1 1 13 ex_pool)) ! 1 = (replicate 13 False)[0 := True, 7 := True]
   \<and> lock_log (final_state (bget 1 1 13 ex_pool)) ! 2 =
       (replicate 13 False)[0 := True, 7 := True, 8 := True]
   \<and> lock_log (final_state (bget 2 1 34 ex_pool)) ! 8 = (replicate 13 False)[8 := True]
   \<and> lock_log (final_state (bget 2 1 34 ex_pool)) ! 9 =
       (replicate 13 False)[8 := True, 7 := True]"
  by code_simp

section \<open>Auxiliary facts\<close>

lemma bucket_of_less: "bucket_of bn < NBUCKET"
proof -
  have "bn mod 13 < 13" by (rule word_mod_less_divisor) simp
  then have "unat (bn mod 13) < unat (13 :: uint)" by (simp only: word_less_nat_alt)
  then show ?thesis by (simp add: bucket_of_def NBUCKET_def)
qed

lemma acquire_simps [simp]:
  "bcache_buf (acquire i s) = bcache_buf s"
  "bcache_bucket (acquire i s) = bcache_bucket s"
  "ticks (acquire i s) = ticks s"
  "disk (acquire i s) = disk s"
  "disk_log (acquire i s) = disk_log s"
  "bcache_lock (acquire i s) = (bcache_lock s)[i := True]"
  "lock_log (acquire i s) = lock_log s @ [(bcache_lock s)[i := True]]"
  "write_log (acquire i s) = write_log s"
  by (simp_all add: acquire_def Let_def)

lemma release_simps [simp]:
  "bcache_buf (release i s) = bcache_buf s"
  "bcache_bucket (release i s) = bcache_bucket s"
  "ticks (release i s) = ticks s"
  "disk (release i s) = disk s"
  "disk_log (release i s) = disk_log s"
  "bcache_lock (release i s) = (bcache_lock s)[i := False]"
  "lock_log (release i s) = lock_log s @ [(bcache_lock s)[i := False]]"
  "write_log (release i s) = write_log s"
  by (simp_all add: release_def Let_def)

lemma upd_buf_simps [simp]:
  "bcache_buf (upd_buf b f s) = (bcache_buf s)[b := f (bcache_buf s ! b)]"
  "bcache_bucket (upd_buf b f s) = bcache_bucket s"
  "ticks (upd_buf b f s) = ticks s"
  "disk (upd_buf b f s) = disk s"
  "disk_log (upd_buf b f s) = disk_log s"
  "bcache_lock (upd_buf b f s) = bcache_lock s"
  "lock_log (upd_buf b f s) = lock_log s"
  "write_log (upd_buf b f s) = write_log s @ [(b, f (bcache_buf s ! b), bcache_lock s)]"
  by (simp_all add: upd_buf_def Let_def)

text \<open>The scan reads buffers and chains and writes only locks.\<close>

lemma scan_chain_frame:
  "scan_chain j c (i, m, s) = (i', m', s') \<Longrightarrow>
     bcache_buf s' = bcache_buf s \<and> bcache_bucket s' = bcache_bucket s \<and>
     ticks s' = ticks s \<and> disk s' = disk s \<and> disk_log s' = disk_log s"
proof (induction c arbitrary: i m s)
  case Nil
  then show ?case by simp
next
  case (Cons b rest)
  show ?case
  proof (cases "refcnt (bcache_buf s ! b) = 0 \<and> time (bcache_buf s ! b) < m")
    case True
    with Cons.prems Cons.IH [of j "time (bcache_buf s ! b)"
        "if i \<noteq> -1 \<and> i \<noteq> j \<and> holding (nat i) s then release (nat i) s else s"]
    show ?thesis by (simp split: if_splits)
  next
    case False
    with Cons.prems Cons.IH [of i m s] show ?thesis by (simp split: if_splits)
  qed
qed

lemma scan_chain_select:
  "scan_chain j c (i, m, s) = (i', m', s') \<Longrightarrow>
     m' \<le> m \<and>
     (\<forall>b \<in> set c. refcnt (bcache_buf s ! b) = 0 \<longrightarrow> m' \<le> time (bcache_buf s ! b)) \<and>
     ((i' = i \<and> m' = m) \<or>
      (i' = j \<and> m' < m \<and> (\<exists>b \<in> set c. refcnt (bcache_buf s ! b) = 0 \<and> time (bcache_buf s ! b) = m')))"
proof (induction c arbitrary: i m s)
  case Nil
  then show ?case by simp
next
  case (Cons b rest)
  show ?case
  proof (cases "refcnt (bcache_buf s ! b) = 0 \<and> time (bcache_buf s ! b) < m")
    case True
    let ?s = "if i \<noteq> -1 \<and> i \<noteq> j \<and> holding (nat i) s then release (nat i) s else s"
    have bs: "bcache_buf ?s = bcache_buf s" by simp
    from True Cons.prems have "scan_chain j rest (j, time (bcache_buf s ! b), ?s) = (i', m', s')"
      by simp
    from Cons.IH [OF this] True show ?thesis
      unfolding bs by (auto simp: less_le_trans intro: order_trans less_imp_le)
  next
    case False
    with Cons.prems have "scan_chain j rest (i, m, s) = (i', m', s')" by simp
    from Cons.IH [OF this] False show ?thesis
      by (auto simp: not_less intro: order_trans)
  qed
qed


lemma can_lock_cases: "can_lock c r = 0 \<or> can_lock c r = 1"
  by (simp add: can_lock_def Let_def)

lemma scan_bucket_select:
  assumes "scan_bucket c j (i, m, s) = (i', m', s')"
  shows "bcache_buf s' = bcache_buf s \<and> bcache_bucket s' = bcache_bucket s \<and>
     ticks s' = ticks s \<and> disk s' = disk s \<and> disk_log s' = disk_log s \<and>
     m' \<le> m \<and>
     (can_lock c j = 1 \<longrightarrow>
        (\<forall>b \<in> set (bcache_bucket s ! nat j).
           refcnt (bcache_buf s ! b) = 0 \<longrightarrow> m' \<le> time (bcache_buf s ! b))) \<and>
     ((i' = i \<and> m' = m) \<or>
      (i' = j \<and> can_lock c j = 1 \<and> m' < m \<and>
       (\<exists>b \<in> set (bcache_bucket s ! nat j).
          refcnt (bcache_buf s ! b) = 0 \<and> time (bcache_buf s ! b) = m')))"
proof (cases "can_lock c j = 0")
  case True
  with assms show ?thesis by (simp add: scan_bucket_def)
next
  case False
  then have one: "can_lock c j = 1" using can_lock_cases [of c j] by simp
  obtain i1 m1 s1 where
    sc: "scan_chain j (bcache_bucket s ! nat j) (i, m, acquire (nat j) s) = (i1, m1, s1)"
    by (metis prod_cases3)
  from assms False sc have res: "i' = i1" "m' = m1"
    "s' = (if j \<noteq> i1 \<and> holding (nat j) s1 then release (nat j) s1 else s1)"
    by (auto simp: scan_bucket_def Let_def)
  have fr: "bcache_buf s' = bcache_buf s \<and> bcache_bucket s' = bcache_bucket s \<and>
     ticks s' = ticks s \<and> disk s' = disk s \<and> disk_log s' = disk_log s"
    using scan_chain_frame [OF sc] res(3) by simp
  from scan_chain_select [OF sc] fr one res(1,2) show ?thesis by simp
qed

lemma fold_scan_bucket_select:
  "fold (scan_bucket c) js (i, m, s) = (i', m', s') \<Longrightarrow>
     bcache_buf s' = bcache_buf s \<and> bcache_bucket s' = bcache_bucket s \<and>
     ticks s' = ticks s \<and> disk s' = disk s \<and> disk_log s' = disk_log s \<and>
     m' \<le> m \<and>
     (\<forall>j \<in> set js. can_lock c j = 1 \<longrightarrow>
        (\<forall>b \<in> set (bcache_bucket s ! nat j).
           refcnt (bcache_buf s ! b) = 0 \<longrightarrow> m' \<le> time (bcache_buf s ! b))) \<and>
     ((i' = i \<and> m' = m) \<or>
      (i' \<in> set js \<and> can_lock c i' = 1 \<and> m' < m \<and>
       (\<exists>b \<in> set (bcache_bucket s ! nat i').
          refcnt (bcache_buf s ! b) = 0 \<and> time (bcache_buf s ! b) = m')))"
proof (induction js arbitrary: i m s)
  case Nil
  then show ?case by simp
next
  case (Cons j js)
  obtain i1 m1 s1 where st: "scan_bucket c j (i, m, s) = (i1, m1, s1)"
    by (metis prod_cases3)
  with Cons.prems have rest: "fold (scan_bucket c) js (i1, m1, s1) = (i', m', s')"
    by simp
  note A = scan_bucket_select [OF st]
  note B = Cons.IH [OF rest]
  from A have eqs: "bcache_buf s1 = bcache_buf s" "bcache_bucket s1 = bcache_bucket s"
    by simp_all
  from A B have fr: "bcache_buf s' = bcache_buf s \<and> bcache_bucket s' = bcache_bucket s \<and>
     ticks s' = ticks s \<and> disk s' = disk s \<and> disk_log s' = disk_log s"
    by simp
  from A B have le: "m' \<le> m1" "m1 \<le> m" by simp_all
  have all: "\<forall>k \<in> set (j # js). can_lock c k = 1 \<longrightarrow>
        (\<forall>b \<in> set (bcache_bucket s ! nat k).
           refcnt (bcache_buf s ! b) = 0 \<longrightarrow> m' \<le> time (bcache_buf s ! b))"
  proof (intro ballI impI)
    fix k b
    assume k: "k \<in> set (j # js)" "can_lock c k = 1"
      and b: "b \<in> set (bcache_bucket s ! nat k)" "refcnt (bcache_buf s ! b) = 0"
    show "m' \<le> time (bcache_buf s ! b)"
    proof (cases "k \<in> set js")
      case True
      with B k b show ?thesis unfolding eqs by blast
    next
      case False
      with k have "k = j" by simp
      with A k b have "m1 \<le> time (bcache_buf s ! b)" by blast
      with le show ?thesis by (rule_tac order_trans)
    qed
  qed
  have sel: "(i' = i \<and> m' = m) \<or>
      (i' \<in> set (j # js) \<and> can_lock c i' = 1 \<and> m' < m \<and>
       (\<exists>b \<in> set (bcache_bucket s ! nat i').
          refcnt (bcache_buf s ! b) = 0 \<and> time (bcache_buf s ! b) = m'))"
  proof -
    from B have "(i' = i1 \<and> m' = m1) \<or>
      (i' \<in> set js \<and> can_lock c i' = 1 \<and> m' < m1 \<and>
       (\<exists>b \<in> set (bcache_bucket s ! nat i').
          refcnt (bcache_buf s ! b) = 0 \<and> time (bcache_buf s ! b) = m'))"
      unfolding eqs by simp
    then show ?thesis
    proof
      assume "i' = i1 \<and> m' = m1"
      with A show ?thesis by auto
    next
      assume *: "i' \<in> set js \<and> can_lock c i' = 1 \<and> m' < m1 \<and>
       (\<exists>b \<in> set (bcache_bucket s ! nat i').
          refcnt (bcache_buf s ! b) = 0 \<and> time (bcache_buf s ! b) = m')"
      then have "m' < m" using le(2) by (auto intro: less_le_trans)
      with * show ?thesis by simp
    qed
  qed
  from fr le all sel show ?case by (simp only: order_trans [OF le] simp_thms)
qed


lemma can_lock_irrefl: "can_lock c c = 0"
  by (simp add: can_lock_def)

lemma scan_select:
  assumes "scan c s = (i', m', s')"
  shows "bcache_buf s' = bcache_buf s \<and> bcache_bucket s' = bcache_bucket s \<and>
     ticks s' = ticks s \<and> disk s' = disk s \<and> disk_log s' = disk_log s \<and>
     (\<forall>j < NBUCKET. can_lock c (int j) = 1 \<longrightarrow>
        (\<forall>b \<in> set (bcache_bucket s ! j).
           refcnt (bcache_buf s ! b) = 0 \<longrightarrow> m' \<le> time (bcache_buf s ! b))) \<and>
     ((i' = -1 \<and> m' = 0xffffffff) \<or>
      (0 \<le> i' \<and> nat i' < NBUCKET \<and> can_lock c i' = 1 \<and> m' < 0xffffffff \<and>
       (\<exists>b \<in> set (bcache_bucket s ! nat i').
          refcnt (bcache_buf s ! b) = 0 \<and> time (bcache_buf s ! b) = m')))"
proof -
  note F = fold_scan_bucket_select [OF assms [unfolded scan_def]]
  have all: "\<forall>j < NBUCKET. can_lock c (int j) = 1 \<longrightarrow>
        (\<forall>b \<in> set (bcache_bucket s ! j).
           refcnt (bcache_buf s ! b) = 0 \<longrightarrow> m' \<le> time (bcache_buf s ! b))"
  proof (intro allI impI ballI)
    fix j b
    assume j: "j < NBUCKET" "can_lock c (int j) = 1"
      and b: "b \<in> set (bcache_bucket s ! j)" "refcnt (bcache_buf s ! b) = 0"
    from j have "int j \<in> set (map int [0..<NBUCKET])" by simp
    with F j(2) b show "m' \<le> time (bcache_buf s ! b)" by fastforce
  qed
  have sel: "(i' = -1 \<and> m' = 0xffffffff) \<or>
      (0 \<le> i' \<and> nat i' < NBUCKET \<and> can_lock c i' = 1 \<and> m' < 0xffffffff \<and>
       (\<exists>b \<in> set (bcache_bucket s ! nat i').
          refcnt (bcache_buf s ! b) = 0 \<and> time (bcache_buf s ! b) = m'))"
    using F by auto
  from F all sel show ?thesis by simp
qed

lemma unlink_Some:
  "\<exists>b \<in> set c. refcnt (bs ! b) = 0 \<and> time (bs ! b) = m \<Longrightarrow> \<exists>v rest. unlink bs m c = Some (v, rest)"
  by (induction c) auto

lemma unlink_props:
  "unlink bs m c = Some (v, rest) \<Longrightarrow>
     v \<in> set c \<and> refcnt (bs ! v) = 0 \<and> time (bs ! v) = m \<and> rest = remove1 v c"
proof (induction c arbitrary: rest)
  case Nil
  then show ?case by simp
next
  case (Cons b c)
  show ?case
  proof (cases "refcnt (bs ! b) = 0 \<and> time (bs ! b) = m")
    case True
    with Cons.prems show ?thesis by simp
  next
    case False
    with Cons.prems obtain r where r: "unlink bs m c = Some (v, r)" "rest = b # r"
      by auto
    from Cons.IH [OF r(1)] False r(2) show ?thesis by auto
  qed
qed

lemma move_buf_found:
  assumes "unlink (bcache_buf s) m (bcache_bucket s ! nat i) = Some (v, rest)"
    and "v < length (bcache_buf s)"
  shows "\<exists>s'. move_buf p d bn c i m s =
                (if lock (bcache_buf s ! v) = None then Inr (s', v) else Inl (Sleeps, s'))
          \<and> bcache_buf s' =
              (bcache_buf s)[v := (bcache_buf s ! v)\<lparr>dev := d, blockno := bn, valid := 0,
                 refcnt := 1,
                 lock := (if lock (bcache_buf s ! v) = None then Some p
                          else lock (bcache_buf s ! v))\<rparr>]
          \<and> bcache_bucket s' =
              (let bk = (bcache_bucket s)[nat i := rest] in bk[c := bk ! c @ [v]])
          \<and> ticks s' = ticks s \<and> disk s' = disk s \<and> disk_log s' = disk_log s"
  using assms
  by (auto simp: move_buf_def acquiresleep_def Let_def split: option.splits)

lemma uint_max_le: "(0xffffffff :: uint) \<le> x \<Longrightarrow> x = 0xffffffff"
proof -
  have "(0xffffffff :: uint) = - 1" by simp
  then show "(0xffffffff :: uint) \<le> x \<Longrightarrow> x = 0xffffffff"
    by (metis word_order.extremum_unique)
qed

lemma wf_bcacheD:
  assumes "wf_bcache s"
  shows "length (bcache_lock s) = NBUCKET" "length (bcache_bucket s) = NBUCKET"
    "i < NBUCKET \<Longrightarrow> b \<in> set (bcache_bucket s ! i) \<Longrightarrow> b < length (bcache_buf s)"
    "distinct (concat (bcache_bucket s))"
  using assms by (auto simp: wf_bcache_def)

lemma in_lockable_iff: "j \<in> set (lockable c) \<longleftrightarrow> j < NBUCKET \<and> can_lock (int c) (int j) = 1"
  by (auto simp: lockable_def)

lemma in_candidates_iff:
  "b \<in> set (candidates c s) \<longleftrightarrow>
     (\<exists>j < NBUCKET. can_lock (int c) (int j) = 1 \<and> b \<in> set (bcache_bucket s ! j)) \<and>
     refcnt (bcache_buf s ! b) = 0"
  by (auto simp: candidates_def in_lockable_iff)

lemma bget_miss_unfold:
  assumes "miss d bn s"
    and "scan (int (bucket_of bn)) (acquire (bucket_of bn) s) = (i, m, s2)"
  shows "bget p d bn s =
           (if i = -1 then Inl (Panic ''bget: no buffers'', s2)
            else move_buf p d bn (bucket_of bn) i m s2)"
  using assms by (simp add: bget_def miss_def Let_def)

text \<open>
  The miss path in full: either the scan found nothing and \<^verbatim>\<open>bget\<close> panics, or the
  victim \<open>v\<close> of donor shard \<open>i\<close> is moved to the target shard and handed out, unless
  its content lock is held.
\<close>

lemma bget_miss_cases:
  fixes p :: nat
  assumes wf: "wf_bcache s" and ms: "miss d bn s"
  obtains (panic) s' where
      "bget p d bn s = Inl (Panic ''bget: no buffers'', s')"
      "bcache_buf s' = bcache_buf s" "bcache_bucket s' = bcache_bucket s"
      "ticks s' = ticks s" "disk s' = disk s" "disk_log s' = disk_log s"
      "\<forall>b \<in> set (candidates (bucket_of bn) s). time (bcache_buf s ! b) = 0xffffffff"
  | (moved) s' i v where
      "i \<in> set (lockable (bucket_of bn))" "i \<noteq> bucket_of bn"
      "v \<in> set (bcache_bucket s ! i)" "v \<in> set (candidates (bucket_of bn) s)"
      "v < length (bcache_buf s)" "time (bcache_buf s ! v) < 0xffffffff"
      "\<forall>b \<in> set (candidates (bucket_of bn) s).
         time (bcache_buf s ! v) \<le> time (bcache_buf s ! b)"
      "bget p d bn s =
         (if lock (bcache_buf s ! v) = None then Inr (s', v) else Inl (Sleeps, s'))"
      "bcache_buf s' =
         (bcache_buf s)[v := (bcache_buf s ! v)\<lparr>dev := d, blockno := bn, valid := 0,
            refcnt := 1,
            lock := (if lock (bcache_buf s ! v) = None then Some p
                     else lock (bcache_buf s ! v))\<rparr>]"
      "bcache_bucket s' =
         (bcache_bucket s)[i := remove1 v (bcache_bucket s ! i),
                           bucket_of bn := bcache_bucket s ! bucket_of bn @ [v]]"
      "ticks s' = ticks s" "disk s' = disk s" "disk_log s' = disk_log s"
proof -
  define c where "c = bucket_of bn"
  define r where "r = bget p d bn s"
  obtain i m s2 where sc: "scan (int c) (acquire c s) = (i, m, s2)"
    by (metis prod_cases3)
  note U = bget_miss_unfold [OF ms sc [unfolded c_def], of p, folded c_def r_def]
  note S = scan_select [OF sc]
  from S have fr: "bcache_buf s2 = bcache_buf s" "bcache_bucket s2 = bcache_bucket s"
    "ticks s2 = ticks s" "disk s2 = disk s" "disk_log s2 = disk_log s"
    by simp_all
  from S have low: "\<forall>b \<in> set (candidates c s). m \<le> time (bcache_buf s ! b)"
    by (auto simp: in_candidates_iff)
  show thesis
  proof (cases "i = -1")
    case True
    with U have r: "r = Inl (Panic ''bget: no buffers'', s2)" by simp
    from True S have "m = 0xffffffff" by auto
    with low have "\<forall>b \<in> set (candidates c s). time (bcache_buf s ! b) = 0xffffffff"
      by (auto dest: uint_max_le)
    then show thesis
      using panic [OF r [unfolded r_def] fr] unfolding c_def by blast
  next
    case False
    with U have r: "r = move_buf p d bn c i m s2" by simp
    from False S obtain b where i: "0 \<le> i" "nat i < NBUCKET" "can_lock (int c) i = 1"
      "m < 0xffffffff" and b: "b \<in> set (bcache_bucket s ! nat i)"
      "refcnt (bcache_buf s ! b) = 0" "time (bcache_buf s ! b) = m"
      by auto
    from b obtain v rest where
      un: "unlink (bcache_buf s2) m (bcache_bucket s2 ! nat i) = Some (v, rest)"
      unfolding fr using unlink_Some [of "bcache_bucket s ! nat i" "bcache_buf s" m] by blast
    note P = unlink_props [OF un, unfolded fr]
    from P wf_bcacheD(3) [OF wf i(2)] have vlen: "v < length (bcache_buf s)" by simp
    then have vlen2: "v < length (bcache_buf s2)" by (simp add: fr)
    from move_buf_found [OF un vlen2, of p d bn c, folded r, unfolded fr]
    obtain s' where
      M: "r = (if lock (bcache_buf s ! v) = None then Inr (s', v) else Inl (Sleeps, s'))"
        "bcache_buf s' =
              (bcache_buf s)[v := (bcache_buf s ! v)\<lparr>dev := d, blockno := bn, valid := 0,
                 refcnt := 1,
                 lock := (if lock (bcache_buf s ! v) = None then Some p
                          else lock (bcache_buf s ! v))\<rparr>]"
        "bcache_bucket s' =
              (let bk = (bcache_bucket s)[nat i := rest] in bk[c := bk ! c @ [v]])"
        "ticks s' = ticks s" "disk s' = disk s" "disk_log s' = disk_log s"
      by blast
    have ci: "can_lock (int c) (int (nat i)) = 1" using i by simp
    have ne: "nat i \<noteq> c"
    proof
      assume "nat i = c"
      with ci show False by (simp add: can_lock_irrefl)
    qed
    have il: "nat i \<in> set (lockable c)" using i(2) ci by (simp add: in_lockable_iff)
    have vc: "v \<in> set (candidates c s)"
      using i(2) ci P unfolding in_candidates_iff by blast
    have bk: "bcache_bucket s' =
              (bcache_bucket s)[nat i := remove1 v (bcache_bucket s ! nat i),
                                c := bcache_bucket s ! c @ [v]]"
      using M(3) P ne by (simp add: Let_def)
    from low P have lw: "\<forall>b \<in> set (candidates c s).
        time (bcache_buf s ! v) \<le> time (bcache_buf s ! b)"
      by simp
    from P i(4) have tv: "time (bcache_buf s ! v) < 0xffffffff" by simp
    have vi: "v \<in> set (bcache_bucket s ! nat i)" using P by simp
    show thesis
      by (rule moved [OF il [unfolded c_def] ne [unfolded c_def] vi vc [unfolded c_def] vlen tv
            lw [unfolded c_def] M(1) [unfolded r_def] M(2) bk [unfolded c_def] M(4) M(5) M(6)])
  qed
qed

lemma returned_Some: "returned r = Some v \<longleftrightarrow> (\<exists>s'. r = Inr (s', v))"
  by (cases r rule: returned.cases) auto

lemma not_panicked: "r = Inr x \<or> r = Inl (Sleeps, y) \<Longrightarrow> \<not> panicked r"
  by auto

lemma panickedI: "r = Inl (Panic m, x) \<Longrightarrow> panicked r"
  by simp

lemma wf_ex_pool: "wf_bcache ex_pool"
  by (simp add: wf_bcache_def ex_pool_def NBUCKET_def)

lemma wf_boot_pool: "wf_bcache boot_pool"
  by (simp add: wf_bcache_def boot_pool_def binit_def NBUCKET_def)

lemma distinct_concat_nth:
  "distinct (concat xs) \<Longrightarrow> i < length xs \<Longrightarrow> distinct (xs ! i)"
  by (induction xs arbitrary: i) (auto simp: nth_Cons split: nat.splits)

lemma disjoint_concat_nth:
  "distinct (concat xs) \<Longrightarrow> i < length xs \<Longrightarrow> k < length xs \<Longrightarrow> i \<noteq> k \<Longrightarrow>
   x \<in> set (xs ! i) \<Longrightarrow> x \<notin> set (xs ! k)"
proof (induction xs arbitrary: i k)
  case Nil
  then show ?case by simp
next
  case (Cons a xs)
  show ?case
  proof (cases i)
    case 0
    with Cons.prems obtain k' where k: "k = Suc k'" "k' < length xs"
      by (cases k) auto
    then have "set (xs ! k') \<subseteq> set (concat xs)" by (auto intro: nth_mem)
    with Cons.prems 0 k show ?thesis by auto
  next
    case (Suc i')
    show ?thesis
    proof (cases k)
      case 0
      from Suc Cons.prems have "set (xs ! i') \<subseteq> set (concat xs)" by (auto intro: nth_mem)
      with Cons.prems Suc 0 show ?thesis by auto
    next
      case (Suc k')
      with Cons.prems \<open>i = Suc i'\<close> Cons.IH [of i' k'] show ?thesis by simp
    qed
  qed
qed

lemma bunpin_simps [simp]:
  "bcache_buf (bunpin b s) =
     (bcache_buf s)[b := (bcache_buf s ! b)\<lparr>refcnt := refcnt (bcache_buf s ! b) - 1\<rparr>]"
  "bcache_bucket (bunpin b s) = bcache_bucket s"
  "length (bcache_lock (bunpin b s)) = length (bcache_lock s)"
  by (simp_all add: bunpin_def Let_def)

lemma bpin_simps [simp]:
  "bcache_buf (bpin b s) =
     (bcache_buf s)[b := (bcache_buf s ! b)\<lparr>refcnt := refcnt (bcache_buf s ! b) + 1\<rparr>]"
  "bcache_bucket (bpin b s) = bcache_bucket s"
  "length (bcache_lock (bpin b s)) = length (bcache_lock s)"
  by (simp_all add: bpin_def Let_def)

lemma nth_refcnt_upd:
  "dev (bs[b := (bs ! b)\<lparr>refcnt := n\<rparr>] ! k) = dev (bs ! k)"
  "blockno (bs[b := (bs ! b)\<lparr>refcnt := n\<rparr>] ! k) = blockno (bs ! k)"
  "time (bs[b := (bs ! b)\<lparr>refcnt := n\<rparr>] ! k) = time (bs ! k)"
  "lock (bs[b := (bs ! b)\<lparr>refcnt := n\<rparr>] ! k) = lock (bs ! k)"
  "k \<noteq> b \<Longrightarrow> refcnt (bs[b := (bs ! b)\<lparr>refcnt := n\<rparr>] ! k) = refcnt (bs ! k)"
  by (cases "b < length bs"; simp add: nth_list_update list_update_beyond not_less)+

lemma lookup_refcnt_upd:
  "lookup (bs[b := (bs ! b)\<lparr>refcnt := n\<rparr>]) d bn c = lookup bs d bn c"
  by (induction c) (simp_all add: nth_refcnt_upd)

lemma wf_bunpin: "wf_bcache (bunpin b s) \<longleftrightarrow> wf_bcache s"
  by (simp add: wf_bcache_def)

lemma miss_bunpin: "miss d bn (bunpin b s) \<longleftrightarrow> miss d bn s"
  by (simp add: miss_def lookup_refcnt_upd)

lemma bget_miss_victim:
  assumes "wf_bcache s" and "miss d bn s" and "bget p d bn s = Inr (s', v)"
  shows "v \<in> set (candidates (bucket_of bn) s)"
  using assms(1,2)
proof (cases rule: bget_miss_cases [of s d bn p])
  case (panic s')
  with assms(3) show ?thesis by simp
next
  case (moved s1 i v1)
  from moved(8) assms(3) have "v1 = v" by (simp split: if_splits)
  with moved(4) show ?thesis by simp
qed

lemma lookup_Some:
  "lookup bs d bn c = Some b \<Longrightarrow> b \<in> set c \<and> dev (bs ! b) = d \<and> blockno (bs ! b) = bn"
  by (induction c) (auto split: if_splits)

lemma bget_hit:
  assumes "lookup (bcache_buf s) d bn (bcache_bucket s ! bucket_of bn) = Some b"
    and "b < length (bcache_buf s)"
  shows "\<exists>s'. bget p d bn s =
                (if lock (bcache_buf s ! b) = None then Inr (s', b) else Inl (Sleeps, s'))
          \<and> bcache_buf s' =
              (bcache_buf s)[b := (bcache_buf s ! b)\<lparr>refcnt := refcnt (bcache_buf s ! b) + 1,
                 lock := (if lock (bcache_buf s ! b) = None then Some p
                          else lock (bcache_buf s ! b))\<rparr>]
          \<and> bcache_bucket s' = bcache_bucket s
          \<and> ticks s' = ticks s \<and> disk s' = disk s \<and> disk_log s' = disk_log s"
  using assms
  by (auto simp: bget_def acquiresleep_def Let_def split: option.splits)

lemma bget_returns:
  assumes wf: "wf_bcache s" and r: "bget p d bn s = Inr (s1, b)"
  shows "b < length (bcache_buf s1) \<and> lock (bcache_buf s1 ! b) = Some p
       \<and> dev (bcache_buf s1 ! b) = d \<and> blockno (bcache_buf s1 ! b) = bn
       \<and> disk s1 = disk s \<and> disk_log s1 = disk_log s"
proof (cases "miss d bn s")
  case True
  with wf show ?thesis
  proof (cases rule: bget_miss_cases [of s d bn p])
    case (panic s')
    with r show ?thesis by simp
  next
    case (moved s' i v)
    from moved(8) r have e: "s' = s1" "v = b" "lock (bcache_buf s ! b) = None"
      by (simp_all split: if_splits)
    from moved(5,9,11,12,13) show ?thesis unfolding e by simp
  qed
next
  case False
  then obtain b' where l: "lookup (bcache_buf s) d bn (bcache_bucket s ! bucket_of bn) = Some b'"
    by (auto simp: miss_def)
  note L = lookup_Some [OF l]
  from L have "b' \<in> set (bcache_bucket s ! bucket_of bn)" by simp
  then have len: "b' < length (bcache_buf s)"
    by (rule wf_bcacheD(3) [OF wf bucket_of_less])
  from bget_hit [OF l len, of p] obtain s' where
    h: "bget p d bn s =
          (if lock (bcache_buf s ! b') = None then Inr (s', b') else Inl (Sleeps, s'))"
      "bcache_buf s' =
              (bcache_buf s)[b' := (bcache_buf s ! b')\<lparr>refcnt := refcnt (bcache_buf s ! b') + 1,
                 lock := (if lock (bcache_buf s ! b') = None then Some p
                          else lock (bcache_buf s ! b'))\<rparr>]"
      "disk s' = disk s" "disk_log s' = disk_log s"
    by blast
  from h(1) r have e: "s' = s1" "b' = b" "lock (bcache_buf s ! b) = None"
    by (simp_all split: if_splits)
  from h(2,3,4) len L show ?thesis unfolding e by simp
qed

lemma virtio_disk_read:
  assumes "b < length (bcache_buf s)"
  shows "bcache_buf (virtio_disk_rw b 0 s) =
           (bcache_buf s)[b := (bcache_buf s ! b)\<lparr>data :=
              disk s (dev (bcache_buf s ! b), blockno (bcache_buf s ! b))\<rparr>]"
    and "disk_log (virtio_disk_rw b 0 s) =
           disk_log s @ [DiskRead (dev (bcache_buf s ! b)) (blockno (bcache_buf s ! b))]"
    and "disk (virtio_disk_rw b 0 s) = disk s"
    and "bcache_bucket (virtio_disk_rw b 0 s) = bcache_bucket s"
  by (simp_all add: virtio_disk_rw_def Let_def)

subsection \<open>Well-formedness is an invariant\<close>

lemma distinct_concat_nth_iff:
  "distinct (concat xs) \<longleftrightarrow>
     (\<forall>i < length xs. distinct (xs ! i)) \<and>
     (\<forall>i < length xs. \<forall>k < length xs. i \<noteq> k \<longrightarrow> set (xs ! i) \<inter> set (xs ! k) = {})"
  (is "?L \<longleftrightarrow> ?R")
proof
  assume ?L
  then show ?R
    using distinct_concat_nth [of xs] disjoint_concat_nth [of xs] by blast
next
  assume ?R
  then show ?L
  proof (induction xs)
    case Nil
    then show ?case by simp
  next
    case (Cons a xs)
    have d: "distinct a" using Cons.prems by (auto dest: spec [of _ 0])
    have tl: "(\<forall>i < length xs. distinct (xs ! i)) \<and>
     (\<forall>i < length xs. \<forall>k < length xs. i \<noteq> k \<longrightarrow> set (xs ! i) \<inter> set (xs ! k) = {})"
    proof (intro conjI allI impI)
      fix i assume "i < length xs"
      with Cons.prems have "distinct ((a # xs) ! Suc i)" by (metis Suc_less_eq length_Cons)
      then show "distinct (xs ! i)" by simp
    next
      fix i k assume "i < length xs" "k < length xs" "i \<noteq> k"
      with Cons.prems have "set ((a # xs) ! Suc i) \<inter> set ((a # xs) ! Suc k) = {}"
        by (metis Suc_less_eq length_Cons nat.inject)
      then show "set (xs ! i) \<inter> set (xs ! k) = {}" by simp
    qed
    have dj: "set a \<inter> set (concat xs) = {}"
    proof (rule ccontr)
      assume "set a \<inter> set (concat xs) \<noteq> {}"
      then obtain x ys where x: "x \<in> set a" "ys \<in> set xs" "x \<in> set ys" by auto
      then obtain k where k: "k < length xs" "xs ! k = ys" by (auto simp: in_set_conv_nth)
      with Cons.prems have "set ((a # xs) ! 0) \<inter> set ((a # xs) ! Suc k) = {}"
        by (metis Suc_less_eq length_Cons nat.distinct(1) zero_less_Suc)
      with x k show False by auto
    qed
    from d dj Cons.IH [OF tl] show ?case by simp
  qed
qed


lemma distinct_concat_move:
  assumes d: "distinct (concat bk)" and i: "i < length bk" and c: "c < length bk"
    and ne: "i \<noteq> c" and v: "v \<in> set (bk ! i)"
  shows "distinct (concat (bk[i := remove1 v (bk ! i), c := bk ! c @ [v]]))"
proof -
  let ?bk = "bk[i := remove1 v (bk ! i), c := bk ! c @ [v]]"
  note D = d [unfolded distinct_concat_nth_iff]
  from D i have di: "distinct (bk ! i)" by simp
  have nth: "?bk ! k = (if k = c then bk ! c @ [v] else if k = i then remove1 v (bk ! i) else bk ! k)"
    if "k < length bk" for k
    using that i c ne by (simp add: nth_list_update)
  have vout: "v \<notin> set (bk ! k)" if "k < length bk" "k \<noteq> i" for k
    using D that i v by blast
  have sub: "set (?bk ! k) \<subseteq> (if k = c then insert v (set (bk ! c)) else set (bk ! k) - (if k = i then {v} else {}))"
    if "k < length bk" for k
    using that di by (auto simp: nth)
  show ?thesis
    unfolding distinct_concat_nth_iff
  proof (intro conjI allI impI)
    fix k assume "k < length ?bk"
    then have k: "k < length bk" by simp
    show "distinct (?bk ! k)"
      using D k di vout [OF c ne [symmetric]] by (simp add: nth)
  next
    fix k l assume "k < length ?bk" "l < length ?bk" "k \<noteq> l"
    then have kl: "k < length bk" "l < length bk" "k \<noteq> l" by simp_all
    from D kl have dj: "set (bk ! k) \<inter> set (bk ! l) = {}" by blast
    show "set (?bk ! k) \<inter> set (?bk ! l) = {}"
    proof (rule ccontr)
      assume "set (?bk ! k) \<inter> set (?bk ! l) \<noteq> {}"
      then obtain x where x: "x \<in> set (?bk ! k)" "x \<in> set (?bk ! l)" by blast
      show False
      proof (cases "x = v")
        case True
        from x(1) sub [OF kl(1)] True have "k = c \<or> (k \<noteq> i \<and> v \<in> set (bk ! k))"
          by (auto split: if_splits)
        with vout [OF kl(1)] have kc: "k = c" by blast
        from x(2) sub [OF kl(2)] True have "l = c \<or> (l \<noteq> i \<and> v \<in> set (bk ! l))"
          by (auto split: if_splits)
        with vout [OF kl(2)] have "l = c" by blast
        with kc kl(3) show False by simp
      next
        case False
        from x(1) sub [OF kl(1)] False have "x \<in> set (bk ! k)" by (auto split: if_splits)
        moreover from x(2) sub [OF kl(2)] False have "x \<in> set (bk ! l)" by (auto split: if_splits)
        ultimately show False using dj by blast
      qed
    qed
  qed
qed

lemma set_concat_move:
  assumes i: "i < length bk" and c: "c < length bk" and ne: "i \<noteq> c" and v: "v \<in> set (bk ! i)"
  shows "set (concat (bk[i := remove1 v (bk ! i), c := bk ! c @ [v]])) \<subseteq> set (concat bk)"
proof
  fix x
  let ?bk = "bk[i := remove1 v (bk ! i), c := bk ! c @ [v]]"
  assume "x \<in> set (concat ?bk)"
  then obtain ys where ys: "ys \<in> set ?bk" "x \<in> set ys" by auto
  from ys(1) obtain k where "k < length ?bk" "?bk ! k = ys"
    unfolding in_set_conv_nth by blast
  with ys(2) have k: "k < length bk" "x \<in> set (?bk ! k)" by simp_all
  have "x \<in> set (bk ! k) \<or> x = v"
    using k i c ne by (auto simp: nth_list_update split: if_splits dest: notin_set_remove1)
  moreover have "v \<in> set (concat bk)" using i v nth_mem [of i bk] by auto
  moreover have "set (bk ! k) \<subseteq> set (concat bk)" using nth_mem [OF k(1)] by auto
  ultimately show "x \<in> set (concat bk)" by blast
qed

lemma scan_chain_lock_len:
  "scan_chain j c (i, m, s) = (i', m', s') \<Longrightarrow>
     length (bcache_lock s') = length (bcache_lock s)"
proof (induction c arbitrary: i m s)
  case Nil
  then show ?case by simp
next
  case (Cons b rest)
  show ?case
  proof (cases "refcnt (bcache_buf s ! b) = 0 \<and> time (bcache_buf s ! b) < m")
    case True
    with Cons.prems Cons.IH [of j "time (bcache_buf s ! b)"
        "if i \<noteq> -1 \<and> i \<noteq> j \<and> holding (nat i) s then release (nat i) s else s"]
    show ?thesis by (simp split: if_splits)
  next
    case False
    with Cons.prems Cons.IH [of i m s] show ?thesis by simp
  qed
qed

lemma scan_bucket_lock_len:
  assumes "scan_bucket c j (i, m, s) = (i', m', s')"
  shows "length (bcache_lock s') = length (bcache_lock s)"
proof (cases "can_lock c j = 0")
  case True
  with assms show ?thesis by (simp add: scan_bucket_def)
next
  case False
  obtain i1 m1 s1 where
    sc: "scan_chain j (bcache_bucket s ! nat j) (i, m, acquire (nat j) s) = (i1, m1, s1)"
    by (metis prod_cases3)
  from assms False sc have
    "s' = (if j \<noteq> i1 \<and> holding (nat j) s1 then release (nat j) s1 else s1)"
    by (auto simp: scan_bucket_def Let_def)
  with scan_chain_lock_len [OF sc] show ?thesis by simp
qed

lemma fold_scan_bucket_lock_len:
  "fold (scan_bucket c) js (i, m, s) = (i', m', s') \<Longrightarrow>
     length (bcache_lock s') = length (bcache_lock s)"
proof (induction js arbitrary: i m s)
  case Nil
  then show ?case by simp
next
  case (Cons j js)
  obtain i1 m1 s1 where st: "scan_bucket c j (i, m, s) = (i1, m1, s1)"
    by (metis prod_cases3)
  with Cons.prems have "fold (scan_bucket c) js (i1, m1, s1) = (i', m', s')" by simp
  from Cons.IH [OF this] scan_bucket_lock_len [OF st] show ?case by simp
qed

lemma move_buf_lock_len:
  "length (bcache_lock (final_state (move_buf p d bn c i m s))) = length (bcache_lock s)"
  by (auto simp: move_buf_def acquiresleep_def Let_def split: option.splits)

lemma bget_lock_len:
  "length (bcache_lock (final_state (bget p d bn s))) = length (bcache_lock s)"
proof (cases "miss d bn s")
  case True
  obtain i m s2 where sc: "scan (int (bucket_of bn)) (acquire (bucket_of bn) s) = (i, m, s2)"
    by (metis prod_cases3)
  from fold_scan_bucket_lock_len [OF sc [unfolded scan_def]]
  have "length (bcache_lock s2) = length (bcache_lock s)" by simp
  with bget_miss_unfold [OF True sc, of p] move_buf_lock_len [of p d bn "bucket_of bn" i m s2]
  show ?thesis by simp
next
  case False
  then show ?thesis
    by (auto simp: miss_def bget_def acquiresleep_def Let_def split: option.splits)
qed

text \<open>Well-formedness holds after \<^verbatim>\<open>binit\<close> and is kept by every operation.\<close>

lemma wf_binit: "wf_bcache (binit n t dsk)"
  by (simp add: wf_bcache_def binit_def NBUCKET_def)

lemma wf_bget:
  assumes wf: "wf_bcache s"
  shows "wf_bcache (final_state (bget p d bn s))"
proof -
  note W = wf_bcacheD [OF wf]
  have ll: "length (bcache_lock (final_state (bget p d bn s))) = NBUCKET"
    using bget_lock_len [of p d bn s] W(1) by simp
  show ?thesis
  proof (cases "miss d bn s")
    case True
    with wf show ?thesis
    proof (cases rule: bget_miss_cases [of s d bn p])
      case (panic s')
      with wf ll show ?thesis by (simp add: wf_bcache_def)
    next
      case (moved s' i v)
      from moved(8) have fs: "final_state (bget p d bn s) = s'"
        by (cases "lock (bcache_buf s ! v) = None") simp_all
      from moved(1) have i: "i < length (bcache_bucket s)"
        by (simp add: in_lockable_iff W(2))
      have c: "bucket_of bn < length (bcache_bucket s)"
        by (simp add: W(2) bucket_of_less)
      note D = distinct_concat_move [OF W(4) i c moved(2,3)]
      note S = set_concat_move [OF i c moved(2,3)]
      from wf have "\<forall>b \<in> set (concat (bcache_bucket s)). b < length (bcache_buf s)"
        by (simp add: wf_bcache_def)
      with S have "\<forall>b \<in> set (concat (bcache_bucket s')). b < length (bcache_buf s')"
        unfolding moved(9,10) by auto
      with D ll W(2) show ?thesis
        unfolding fs wf_bcache_def moved(10) by simp
    qed
  next
    case False
    then obtain b where l: "lookup (bcache_buf s) d bn (bcache_bucket s ! bucket_of bn) = Some b"
      by (auto simp: miss_def)
    from lookup_Some [OF l] have "b \<in> set (bcache_bucket s ! bucket_of bn)" by simp
    then have len: "b < length (bcache_buf s)"
      by (rule W(3) [OF bucket_of_less])
    from bget_hit [OF l len, of p] obtain s' where
      h: "bget p d bn s =
          (if lock (bcache_buf s ! b) = None then Inr (s', b) else Inl (Sleeps, s'))"
        "bcache_buf s' =
              (bcache_buf s)[b := (bcache_buf s ! b)\<lparr>refcnt := refcnt (bcache_buf s ! b) + 1,
                 lock := (if lock (bcache_buf s ! b) = None then Some p
                          else lock (bcache_buf s ! b))\<rparr>]"
        "bcache_bucket s' = bcache_bucket s"
      by blast
    from h(1) have fs: "final_state (bget p d bn s) = s'"
      by (cases "lock (bcache_buf s ! b) = None") simp_all
    from wf ll h(2,3) show ?thesis unfolding fs [symmetric] wf_bcache_def
      by (simp add: fs)
  qed
qed

lemma wf_bpin: "wf_bcache (bpin b s) \<longleftrightarrow> wf_bcache s"
  by (simp add: wf_bcache_def)

lemma wf_brelse: "wf_bcache s \<Longrightarrow> brelse p b s = Inr s' \<Longrightarrow> wf_bcache s'"
  by (auto simp: brelse_def releasesleep_def wf_bcache_def Let_def split: if_splits)

lemma wf_bwrite: "wf_bcache s \<Longrightarrow> bwrite p b s = Inr s' \<Longrightarrow> wf_bcache s'"
  by (auto simp: bwrite_def virtio_disk_rw_def wf_bcache_def Let_def split: if_splits)

lemma wf_bread: "wf_bcache s \<Longrightarrow> bread p d bn s = Inr (s', b) \<Longrightarrow> wf_bcache s'"
  using wf_bget [of s p d bn]
  by (auto simp: bread_def virtio_disk_rw_def wf_bcache_def Let_def split: sum.splits if_splits)

text \<open>So is the rule of membership: every buffer stays on the chain of its shard.\<close>

lemma blockno_upd_same:
  "blockno y = blockno (bs ! b) \<Longrightarrow> blockno (bs[b := y] ! k) = blockno (bs ! k)"
  by (cases "b < length bs") (auto simp: nth_list_update list_update_beyond not_less)

lemma chains_hashed_cong:
  assumes "bcache_bucket s' = bcache_bucket s"
    and "\<And>k. blockno (bcache_buf s' ! k) = blockno (bcache_buf s ! k)"
  shows "chains_hashed s' \<longleftrightarrow> chains_hashed s"
  using assms by (simp add: chains_hashed_def)

lemma chains_hashed_binit: "chains_hashed (binit n t dsk)"
  unfolding chains_hashed_def
proof (intro ballI)
  fix j b
  assume j: "j \<in> {0..<length (bcache_bucket (binit n t dsk))}"
    and b: "b \<in> set (bcache_bucket (binit n t dsk) ! j)"
  show "unat (blockno (bcache_buf (binit n t dsk) ! b)) mod NBUCKET = j"
  proof (cases j)
    case 0
    with b have "b < n" by (simp add: binit_def)
    then have e: "blockno (bcache_buf (binit n t dsk) ! b) = 0"
      by (simp add: binit_def zero_buf_def)
    show ?thesis unfolding e 0 by simp
  next
    case (Suc j')
    with j have "j' < NBUCKET - 1" by (simp add: binit_def)
    with Suc b show ?thesis by (simp add: binit_def)
  qed
qed

lemma chains_hashed_bget:
  assumes wf: "wf_bcache s" and ch: "chains_hashed s"
  shows "chains_hashed (final_state (bget p d bn s))"
proof -
  note W = wf_bcacheD [OF wf]
  have shard: "unat bn mod NBUCKET = bucket_of bn"
    by (simp add: bucket_of_def NBUCKET_def unat_mod)
  show ?thesis
  proof (cases "miss d bn s")
    case True
    with wf show ?thesis
    proof (cases rule: bget_miss_cases [of s d bn p])
      case (panic s')
      with ch show ?thesis by (simp add: chains_hashed_def)
    next
      case (moved s' i v)
      from moved(8) have fs: "final_state (bget p d bn s) = s'"
        by (cases "lock (bcache_buf s ! v) = None") simp_all
      from moved(1) have i: "i < length (bcache_bucket s)"
        by (simp add: in_lockable_iff W(2))
      have c: "bucket_of bn < length (bcache_bucket s)"
        by (simp add: W(2) bucket_of_less)
      show ?thesis
        unfolding fs chains_hashed_def
      proof (intro ballI)
        fix j b
        assume j: "j \<in> {0..<length (bcache_bucket s')}" and b: "b \<in> set (bcache_bucket s' ! j)"
        from j have jl: "j < length (bcache_bucket s)" by (simp add: moved(10))
        show "unat (blockno (bcache_buf s' ! b)) mod NBUCKET = j"
        proof (cases "b = v")
          case True
          have "j = bucket_of bn"
          proof (rule ccontr)
            assume ne: "j \<noteq> bucket_of bn"
            have "v \<notin> set (bcache_bucket s' ! j)"
            proof (cases "j = i")
              case True
              with moved(10) i moved(2) have "bcache_bucket s' ! j = remove1 v (bcache_bucket s ! i)"
                by simp
              moreover have "distinct (bcache_bucket s ! i)"
                using W(4) i by (rule distinct_concat_nth)
              ultimately show ?thesis by simp
            next
              case False
              with ne moved(10) have "bcache_bucket s' ! j = bcache_bucket s ! j" by simp
              with disjoint_concat_nth [OF W(4) i jl _ moved(3)] False show ?thesis by auto
            qed
            with b True show False by simp
          qed
          moreover have "blockno (bcache_buf s' ! v) = bn"
            using moved(5,9) by simp
          ultimately show ?thesis using True shard by simp
        next
          case False
          then have same: "bcache_buf s' ! b = bcache_buf s ! b"
            using moved(9) by simp
          have "b \<in> set (bcache_bucket s ! j)"
          proof (cases "j = bucket_of bn")
            case True
            with moved(10) c have "bcache_bucket s' ! j = bcache_bucket s ! j @ [v]" by simp
            with b False show ?thesis by simp
          next
            case nc: False
            show ?thesis
            proof (cases "j = i")
              case True
              with moved(10) i nc have "bcache_bucket s' ! j = remove1 v (bcache_bucket s ! j)"
                by simp
              with b set_remove1_subset [of v "bcache_bucket s ! j"] show ?thesis by auto
            next
              case False
              with nc moved(10) have "bcache_bucket s' ! j = bcache_bucket s ! j" by simp
              with b show ?thesis by simp
            qed
          qed
          with ch jl show ?thesis unfolding same chains_hashed_def by simp
        qed
      qed
    qed
  next
    case False
    then obtain b where l: "lookup (bcache_buf s) d bn (bcache_bucket s ! bucket_of bn) = Some b"
      by (auto simp: miss_def)
    from lookup_Some [OF l] have "b \<in> set (bcache_bucket s ! bucket_of bn)" by simp
    then have len: "b < length (bcache_buf s)"
      by (rule W(3) [OF bucket_of_less])
    from bget_hit [OF l len, of p] obtain s' where
      h: "bget p d bn s =
          (if lock (bcache_buf s ! b) = None then Inr (s', b) else Inl (Sleeps, s'))"
        "bcache_buf s' =
              (bcache_buf s)[b := (bcache_buf s ! b)\<lparr>refcnt := refcnt (bcache_buf s ! b) + 1,
                 lock := (if lock (bcache_buf s ! b) = None then Some p
                          else lock (bcache_buf s ! b))\<rparr>]"
        "bcache_bucket s' = bcache_bucket s"
      by blast
    from h(1) have fs: "final_state (bget p d bn s) = s'"
      by (cases "lock (bcache_buf s ! b) = None") simp_all
    have "blockno (bcache_buf s' ! k) = blockno (bcache_buf s ! k)" for k
      unfolding h(2) by (rule blockno_upd_same) simp
    from chains_hashed_cong [OF h(3) this] ch show ?thesis unfolding fs by simp
  qed
qed

lemma chains_hashed_bpin: "chains_hashed (bpin b s) \<longleftrightarrow> chains_hashed s"
  by (rule chains_hashed_cong) (simp_all add: blockno_upd_same)

lemma chains_hashed_bunpin: "chains_hashed (bunpin b s) \<longleftrightarrow> chains_hashed s"
  by (rule chains_hashed_cong) (simp_all add: blockno_upd_same)

lemma chains_hashed_brelse:
  assumes "chains_hashed s" and "brelse p b s = Inr s'"
  shows "chains_hashed s'"
proof -
  from assms(2) have "bcache_bucket s' = bcache_bucket s"
    and "\<And>k. blockno (bcache_buf s' ! k) = blockno (bcache_buf s ! k)"
    by (auto simp: brelse_def releasesleep_def Let_def blockno_upd_same split: if_splits)
  from chains_hashed_cong [OF this] assms(1) show ?thesis by simp
qed

lemma chains_hashed_bwrite:
  assumes "chains_hashed s" and "bwrite p b s = Inr s'"
  shows "chains_hashed s'"
proof -
  from assms(2) have "bcache_bucket s' = bcache_bucket s"
    and "\<And>k. blockno (bcache_buf s' ! k) = blockno (bcache_buf s ! k)"
    by (auto simp: bwrite_def virtio_disk_rw_def Let_def split: if_splits)
  from chains_hashed_cong [OF this] assms(1) show ?thesis by simp
qed

lemma chains_hashed_bread:
  assumes "wf_bcache s" and "chains_hashed s" and "bread p d bn s = Inr (s', b)"
  shows "chains_hashed s'"
proof -
  from assms(3) obtain s1 where g: "bget p d bn s = Inr (s1, b)"
    by (auto simp: bread_def Let_def split: sum.splits if_splits)
  from chains_hashed_bget [OF assms(1,2), of p d bn] g have c1: "chains_hashed s1"
    by simp
  from assms(3) g have "bcache_bucket s' = bcache_bucket s1"
    and "\<And>k. blockno (bcache_buf s' ! k) = blockno (bcache_buf s1 ! k)"
    by (auto simp: bread_def virtio_disk_rw_def Let_def blockno_upd_same split: if_splits)
  from chains_hashed_cong [OF this] c1 show ?thesis by simp
qed

subsection \<open>Counting held locks\<close>

lemma held_finite: "finite (held l)"
  by (simp add: held_def)

lemma locks_held_card: "locks_held l = card (held l)"
  by (simp add: locks_held_def held_def length_filter_conv_card)

lemma held_set_True: "held (l[i := True]) \<subseteq> insert i (held l)"
  by (auto simp: held_def nth_list_update)

lemma held_set_False: "held (l[i := False]) = held l - {i}"
proof (rule set_eqI)
  fix x
  show "x \<in> held (l[i := False]) \<longleftrightarrow> x \<in> held l - {i}"
    by (cases "x = i") (auto simp: held_def)
qed

lemma locks_held_le:
  assumes "held l \<subseteq> A" and "finite A" and "card A \<le> n"
  shows "locks_held l \<le> n"
proof -
  have "card (held l) \<le> card A" using assms(1,2) by (rule card_mono [rotated])
  with assms(3) show ?thesis by (simp add: locks_held_card)
qed

lemma card3: "card {a, b, c} \<le> (3::nat)"
  by (simp add: card_insert_if)

lemma locks_held_3: "held l \<subseteq> {a, b, c} \<Longrightarrow> locks_held l \<le> 3"
  by (rule locks_held_le [OF _ _ card3]) simp_all

text \<open>
  The locks held during the scan: the target shard \<open>t\<close>, the scan position \<open>j\<close> and the
  shard \<open>index\<close> of the best candidate, if there is one.
\<close>

lemma scan_chain_locks:
  assumes "scan_chain j c (i, m, s) = (i', m', s')"
    and "0 \<le> j"
    and "held (bcache_lock s) \<subseteq> {t, nat j} \<union> (if i = -1 then {} else {nat i})"
    and "\<forall>l \<in> set (lock_log s). locks_held l \<le> 3"
  shows "held (bcache_lock s') \<subseteq> {t, nat j} \<union> (if i' = -1 then {} else {nat i'})
       \<and> (\<forall>l \<in> set (lock_log s'). locks_held l \<le> 3)"
  using assms
proof (induction c arbitrary: i m s)
  case Nil
  then show ?case by auto
next
  case (Cons b rest)
  show ?case
  proof (cases "refcnt (bcache_buf s ! b) = 0 \<and> time (bcache_buf s ! b) < m")
    case False
    with Cons.prems(1) have "scan_chain j rest (i, m, s) = (i', m', s')" by simp
    from Cons.IH [OF this Cons.prems(2,3,4)] show ?thesis .
  next
    case True
    let ?s = "if i \<noteq> -1 \<and> i \<noteq> j \<and> holding (nat i) s then release (nat i) s else s"
    from True Cons.prems(1) have
      rec: "scan_chain j rest (j, time (bcache_buf s ! b), ?s) = (i', m', s')"
      by simp
    have jn: "j \<noteq> -1" using Cons.prems(2) by simp
    have h: "held (bcache_lock ?s) \<subseteq> {t, nat j}"
    proof (cases "i \<noteq> -1 \<and> i \<noteq> j \<and> holding (nat i) s")
      case True
      then have "held (bcache_lock ?s) = held (bcache_lock s) - {nat i}"
        by (simp add: held_set_False)
      with Cons.prems(3) True show ?thesis by auto
    next
      case False
      then have e: "?s = s" by (rule if_not_P)
      from False consider "i = -1" | "i = j" | "i \<noteq> -1" "\<not> holding (nat i) s" by blast
      then show ?thesis
      proof cases
        case 1
        with Cons.prems(3) show ?thesis unfolding e by simp
      next
        case 2
        with Cons.prems(3) jn show ?thesis unfolding e by auto
      next
        case 3
        then have "nat i \<notin> held (bcache_lock s)" by (simp add: held_def holding_def)
        with Cons.prems(3) 3(1) show ?thesis unfolding e by auto
      qed
    qed
    then have h': "held (bcache_lock ?s) \<subseteq> {t, nat j} \<union> (if j = -1 then {} else {nat j})"
      by auto
    have lg: "\<forall>l \<in> set (lock_log ?s). locks_held l \<le> 3"
    proof (cases "i \<noteq> -1 \<and> i \<noteq> j \<and> holding (nat i) s")
      case True
      then have "lock_log ?s = lock_log s @ [bcache_lock ?s]" by simp
      moreover from h have "locks_held (bcache_lock ?s) \<le> 3"
        by (intro locks_held_3 [of _ t "nat j" "nat j"]) auto
      ultimately show ?thesis using Cons.prems(4) by auto
    next
      case False
      then have "?s = s" by (rule if_not_P)
      with Cons.prems(4) show ?thesis by simp
    qed
    from Cons.IH [OF rec Cons.prems(2) h' lg] show ?thesis .
  qed
qed

lemma scan_bucket_locks:
  assumes "scan_bucket c j (i, m, s) = (i', m', s')"
    and "0 \<le> j"
    and "held (bcache_lock s) \<subseteq> {t} \<union> (if i = -1 then {} else {nat i})"
    and "\<forall>l \<in> set (lock_log s). locks_held l \<le> 3"
  shows "held (bcache_lock s') \<subseteq> {t} \<union> (if i' = -1 then {} else {nat i'})
       \<and> (\<forall>l \<in> set (lock_log s'). locks_held l \<le> 3)"
proof (cases "can_lock c j = 0")
  case True
  with assms show ?thesis by (auto simp: scan_bucket_def)
next
  case False
  let ?s1 = "acquire (nat j) s"
  obtain i1 m1 s1 where
    sc: "scan_chain j (bcache_bucket ?s1 ! nat j) (i, m, ?s1) = (i1, m1, s1)"
    by (metis prod_cases3)
  from assms(1) False sc have res: "i' = i1" "m' = m1"
    "s' = (if j \<noteq> i1 \<and> holding (nat j) s1 then release (nat j) s1 else s1)"
    by (auto simp: scan_bucket_def Let_def)
  have h1: "held (bcache_lock ?s1) \<subseteq> {t, nat j} \<union> (if i = -1 then {} else {nat i})"
    using assms(3) held_set_True [of "bcache_lock s" "nat j"] by auto
  then have "held (bcache_lock ?s1) \<subseteq> {t, nat j, nat i}" by (auto split: if_splits)
  then have "locks_held (bcache_lock ?s1) \<le> 3" by (rule locks_held_3)
  with assms(4) have l1: "\<forall>l \<in> set (lock_log ?s1). locks_held l \<le> 3" by simp
  from scan_chain_locks [OF sc assms(2) h1 l1]
  have h2: "held (bcache_lock s1) \<subseteq> {t, nat j} \<union> (if i1 = -1 then {} else {nat i1})"
    and l2: "\<forall>l \<in> set (lock_log s1). locks_held l \<le> 3"
    by simp_all
  have jn: "j \<noteq> -1" using assms(2) by simp
  have h3: "held (bcache_lock s') \<subseteq> {t} \<union> (if i1 = -1 then {} else {nat i1})"
  proof (cases "j \<noteq> i1 \<and> holding (nat j) s1")
    case True
    with res(3) have "held (bcache_lock s') = held (bcache_lock s1) - {nat j}"
      by (simp add: held_set_False)
    with h2 show ?thesis by auto
  next
    case False
    then have "(if j \<noteq> i1 \<and> holding (nat j) s1 then release (nat j) s1 else s1) = s1"
      by (rule if_not_P)
    with res(3) have e: "s' = s1" by simp
    from False consider "j = i1" | "\<not> holding (nat j) s1" by blast
    then show ?thesis
    proof cases
      case 1
      with h2 jn show ?thesis unfolding e by auto
    next
      case 2
      then have "nat j \<notin> held (bcache_lock s1)" by (simp add: held_def holding_def)
      with h2 show ?thesis unfolding e by auto
    qed
  qed
  have l3: "\<forall>l \<in> set (lock_log s'). locks_held l \<le> 3"
  proof (cases "j \<noteq> i1 \<and> holding (nat j) s1")
    case True
    with res(3) have "lock_log s' = lock_log s1 @ [bcache_lock s']" by simp
    moreover from h3 have "held (bcache_lock s') \<subseteq> {t, nat i1, nat i1}"
      by (auto split: if_splits)
    then have "locks_held (bcache_lock s') \<le> 3" by (rule locks_held_3)
    ultimately show ?thesis using l2 by auto
  next
    case False
    then have "(if j \<noteq> i1 \<and> holding (nat j) s1 then release (nat j) s1 else s1) = s1"
      by (rule if_not_P)
    with res(3) l2 show ?thesis by simp
  qed
  from h3 l3 show ?thesis unfolding res(1) by (rule conjI)
qed

lemma fold_scan_bucket_locks:
  assumes "fold (scan_bucket c) js (i, m, s) = (i', m', s')"
    and "\<forall>j \<in> set js. 0 \<le> j"
    and "held (bcache_lock s) \<subseteq> {t} \<union> (if i = -1 then {} else {nat i})"
    and "\<forall>l \<in> set (lock_log s). locks_held l \<le> 3"
  shows "held (bcache_lock s') \<subseteq> {t} \<union> (if i' = -1 then {} else {nat i'})
       \<and> (\<forall>l \<in> set (lock_log s'). locks_held l \<le> 3)"
  using assms
proof (induction js arbitrary: i m s)
  case Nil
  then show ?case by auto
next
  case (Cons j js)
  obtain i1 m1 s1 where st: "scan_bucket c j (i, m, s) = (i1, m1, s1)"
    by (metis prod_cases3)
  with Cons.prems(1) have rest: "fold (scan_bucket c) js (i1, m1, s1) = (i', m', s')"
    by simp
  from Cons.prems(2) have j: "0 \<le> j" and js: "\<forall>j \<in> set js. 0 \<le> j" by simp_all
  from scan_bucket_locks [OF st j Cons.prems(3,4)]
  have "held (bcache_lock s1) \<subseteq> {t} \<union> (if i1 = -1 then {} else {nat i1})"
    and "\<forall>l \<in> set (lock_log s1). locks_held l \<le> 3"
    by simp_all
  from Cons.IH [OF rest js this] show ?case .
qed

lemma locks_held_0: "locks_held l = 0 \<longleftrightarrow> held l = {}"
  by (simp add: locks_held_card held_finite)

lemma locks_held_release: "locks_held (l[x := False]) \<le> locks_held l"
  unfolding locks_held_card held_set_False
  by (rule card_mono) (auto simp: held_finite)

lemma scan_locks:
  assumes "scan c s = (i, m, s')"
    and "held (bcache_lock s) \<subseteq> {t}"
    and "\<forall>l \<in> set (lock_log s). locks_held l \<le> 3"
  shows "held (bcache_lock s') \<subseteq> {t} \<union> (if i = -1 then {} else {nat i})
       \<and> (\<forall>l \<in> set (lock_log s'). locks_held l \<le> 3)"
proof -
  have js: "\<forall>j \<in> set (map int [0..<NBUCKET]). 0 \<le> j" by simp
  have h: "held (bcache_lock s) \<subseteq> {t} \<union> (if (-1::int) = -1 then {} else {nat (-1)})"
    using assms(2) by simp
  from fold_scan_bucket_locks [OF assms(1) [unfolded scan_def] js h assms(3)]
  show ?thesis .
qed

lemma move_buf_locks:
  assumes "\<forall>l \<in> set (lock_log s). locks_held l \<le> 3"
    and "held (bcache_lock s) \<subseteq> {t, nat i}"
  shows "(\<forall>l \<in> set (lock_log (final_state (move_buf p d bn t i m s))). locks_held l \<le> 3)
       \<and> (\<forall>e s'. move_buf p d bn t i m s \<noteq> Inl (Panic e, s'))
       \<and> (move_buf p d bn t i m s = Inl (NullDeref, s)
           \<or> held (bcache_lock (final_state (move_buf p d bn t i m s))) = {})"
proof (cases "unlink (bcache_buf s) m (bcache_bucket s ! nat i)")
  case None
  with assms(1) show ?thesis by (simp add: move_buf_def)
next
  case (Some vr)
  obtain v rest where vr: "vr = (v, rest)" by (cases vr)
  let ?l = "bcache_lock s"
  let ?f = "final_state (move_buf p d bn t i m s)"
  have lg: "lock_log ?f = lock_log s @ [?l[nat i := False], ?l[nat i := False, t := False]]"
    and lk: "bcache_lock ?f = ?l[nat i := False, t := False]"
    and np: "\<forall>e s'. move_buf p d bn t i m s \<noteq> Inl (Panic e, s')"
    using Some vr
    by (auto simp: move_buf_def acquiresleep_def Let_def split: option.splits)
  have a: "locks_held (?l[nat i := False]) \<le> 3"
    using assms(2) unfolding held_set_False [symmetric]
    by (intro locks_held_3 [of _ t t t]) (auto simp: held_set_False)
  have b: "locks_held (?l[nat i := False, t := False]) \<le> 3"
    using locks_held_release [of "?l[nat i := False]" t] a by simp
  have e: "held (bcache_lock ?f) = {}"
    unfolding lk held_set_False using assms(2) by auto
  from lg a b assms(1) np e show ?thesis by auto
qed

section \<open>Which buffer the miss path recycles\<close>

text \<open>
  C1, as the spec states it, does not hold: the scan skips every shard \<open>j\<close> with
  \<open>can_lock bucket_id j = 0\<close>, the target shard among them. In \<open>ex_pool\<close> a request for
  block 13 (shard 0) misses and recycles buffer 1 (idle since tick 5), although buffer 0 on
  the chain of shard 0 is unreferenced and idle since tick 1.
\<close>

theorem bget_global_lru_counterexample:
  "miss 1 13 ex_pool \<and> returned (bget 1 1 13 ex_pool) = Some 1
   \<and> bcache_bucket ex_pool ! 0 = [0] \<and> refcnt (bcache_buf ex_pool ! 0) = 0
   \<and> time (bcache_buf ex_pool ! 0) < time (bcache_buf ex_pool ! 1)"
  by code_simp

text \<open>
  C1, amended. On a miss that returns, the victim is an unreferenced buffer on the chain
  of a shard that \<open>can_lock\<close> lets the scan lock from the target shard, and no such buffer
  has a smaller idle timestamp: LRU among the lockable shards, not over the whole pool.
\<close>

theorem bget_victim_lru_lockable:
  assumes "wf_bcache s" and "miss d bn s" and "bget p d bn s = Inr (s', v)"
  shows "v \<in> set (candidates (bucket_of bn) s)
       \<and> (\<forall>b \<in> set (candidates (bucket_of bn) s).
            time (bcache_buf s ! v) \<le> time (bcache_buf s ! b))"
  using assms(1,2)
proof (cases rule: bget_miss_cases [of s d bn p])
  case (panic s')
  with assms(3) show ?thesis by simp
next
  case (moved s1 i v1)
  from moved(8) assms(3) have "v1 = v" by (simp split: if_splits)
  with moved(4,7) show ?thesis by simp
qed

theorem bget_victim_lru_lockable_witness:
  "wf_bcache ex_pool \<and> miss 1 13 ex_pool \<and> returned (bget 1 1 13 ex_pool) = Some 1
   \<and> candidates (bucket_of 13) ex_pool = [1, 2]
   \<and> time (bcache_buf ex_pool ! 1) \<le> time (bcache_buf ex_pool ! 2)"
proof -
  have m: "miss 1 13 ex_pool" by code_simp
  have r: "returned (bget 1 1 13 ex_pool) = Some 1" by code_simp
  have c: "candidates (bucket_of 13) ex_pool = [1, 2]" by code_simp
  from r obtain s' where "bget 1 1 13 ex_pool = Inr (s', 1)"
    by (auto simp: returned_Some)
  from bget_victim_lru_lockable [OF wf_ex_pool m this] c
  have "time (bcache_buf ex_pool ! 1) \<le> time (bcache_buf ex_pool ! 2)" by simp
  with wf_ex_pool m r c show ?thesis by simp
qed

section \<open>When the miss path panics\<close>

text \<open>
  C2, as the spec states it, does not hold: right after \<^verbatim>\<open>binit\<close> all 30 buffers are
  unreferenced on the chain of shard 0, and a request for block 7 misses and panics with
  "bget: no buffers", because shard 0 is not lockable from shard 7.
\<close>

theorem bget_panics_with_idle_buffers_counterexample:
  "miss 1 7 boot_pool \<and> panicked (bget 1 1 7 boot_pool)
   \<and> bcache_bucket boot_pool ! 0 ! 0 = 0 \<and> refcnt (bcache_buf boot_pool ! 0) = 0"
  by code_simp

text \<open>
  C2, amended. On a miss, \<^verbatim>\<open>bget\<close> panics with "bget: no buffers" when no lockable
  shard has an unreferenced buffer on its chain, and it does not panic when some lockable
  shard has an unreferenced buffer whose idle timestamp is below \<^verbatim>\<open>0xffffffff\<close>.
\<close>

theorem bget_no_buffers_lockable:
  assumes "wf_bcache s" and "miss d bn s"
  shows "(candidates (bucket_of bn) s = [] \<longrightarrow>
            (\<exists>s'. bget p d bn s = Inl (Panic ''bget: no buffers'', s')))
       \<and> ((\<exists>b \<in> set (candidates (bucket_of bn) s). time (bcache_buf s ! b) < 0xffffffff) \<longrightarrow>
            \<not> panicked (bget p d bn s))"
  using assms
proof (cases rule: bget_miss_cases [of s d bn p])
  case (panic s')
  from panic(1) have "panicked (bget p d bn s)" by simp
  moreover from panic(7) have
    "\<not> (\<exists>b \<in> set (candidates (bucket_of bn) s). time (bcache_buf s ! b) < 0xffffffff)"
    by auto
  ultimately show ?thesis using panic(1) by blast
next
  case (moved s' i v)
  from moved(8) have "\<not> panicked (bget p d bn s)"
    by (cases "lock (bcache_buf s ! v) = None") simp_all
  moreover from moved(4) have "candidates (bucket_of bn) s \<noteq> []" by auto
  ultimately show ?thesis by blast
qed

theorem bget_no_buffers_lockable_witness:
  "wf_bcache boot_pool \<and> miss 1 7 boot_pool \<and> candidates (bucket_of 7) boot_pool = []
   \<and> panicked (bget 1 1 7 boot_pool)
   \<and> wf_bcache ex_pool \<and> miss 1 13 ex_pool
   \<and> 1 \<in> set (candidates (bucket_of 13) ex_pool) \<and> time (bcache_buf ex_pool ! 1) < 0xffffffff
   \<and> \<not> panicked (bget 1 1 13 ex_pool)"
proof -
  have m: "miss 1 7 boot_pool" by code_simp
  have c: "candidates (bucket_of 7) boot_pool = []" by code_simp
  have m2: "miss 1 13 ex_pool" by code_simp
  have c2: "1 \<in> set (candidates (bucket_of 13) ex_pool)"
    "time (bcache_buf ex_pool ! 1) < 0xffffffff" by code_simp+
  from bget_no_buffers_lockable [OF wf_boot_pool m, of 1] c
  obtain s' where "bget 1 1 7 boot_pool = Inl (Panic ''bget: no buffers'', s')"
    by blast
  then have p: "panicked (bget 1 1 7 boot_pool)" by simp
  from bget_no_buffers_lockable [OF wf_ex_pool m2, of 1] c2
  have "\<not> panicked (bget 1 1 13 ex_pool)" by blast
  with wf_boot_pool m c p wf_ex_pool m2 c2 show ?thesis by simp
qed

section \<open>The move of the victim\<close>

text \<open>
  C5. On a miss where a victim can be chosen and the idle buffers' content locks are
  free, \<^verbatim>\<open>bget\<close> returns a buffer \<open>v\<close> taken from a donor shard \<open>i\<close> other than the
  target shard \<open>blockno mod NBUCKET\<close>: \<open>v\<close> is removed from the donor chain and
  appended to the target chain, so that afterwards it is on no other chain and exactly
  once on the target chain; its identity is the requested \<open>(dev, blockno)\<close>, \<open>valid\<close>
  is 0, \<open>refcnt\<close> is 1 and the caller holds its content lock; no other buffer changes.
\<close>

theorem bget_miss_recycles:
  assumes "wf_bcache s" and "miss d bn s"
    and "\<exists>b \<in> set (candidates (bucket_of bn) s). time (bcache_buf s ! b) < 0xffffffff"
    and "\<forall>b \<in> set (candidates (bucket_of bn) s). lock (bcache_buf s ! b) = None"
  shows "bucket_of bn = unat bn mod NBUCKET
       \<and> (\<exists>s' v i. bget p d bn s = Inr (s', v)
       \<and> i < NBUCKET \<and> i \<noteq> bucket_of bn \<and> v \<in> set (bcache_bucket s ! i)
       \<and> bcache_bucket s' =
           (bcache_bucket s)[i := remove1 v (bcache_bucket s ! i),
                             bucket_of bn := bcache_bucket s ! bucket_of bn @ [v]]
       \<and> v \<notin> set (bcache_bucket s' ! i)
       \<and> count_list (bcache_bucket s' ! bucket_of bn) v = 1
       \<and> (\<forall>k < NBUCKET. k \<noteq> bucket_of bn \<longrightarrow> v \<notin> set (bcache_bucket s' ! k))
       \<and> bcache_buf s' =
           (bcache_buf s)[v := (bcache_buf s ! v)\<lparr>dev := d, blockno := bn, valid := 0,
                                 refcnt := 1, lock := Some p\<rparr>]
       \<and> dev (bcache_buf s' ! v) = d \<and> blockno (bcache_buf s' ! v) = bn
       \<and> valid (bcache_buf s' ! v) = 0 \<and> refcnt (bcache_buf s' ! v) = 1
       \<and> lock (bcache_buf s' ! v) = Some p)"
proof -
  let ?c = "bucket_of bn" and ?r = "bget p d bn s"
  have shard: "bucket_of bn = unat bn mod NBUCKET"
    by (simp add: bucket_of_def NBUCKET_def unat_mod)
  note wf = wf_bcacheD [OF assms(1)]
  have c: "?c < NBUCKET" by (rule bucket_of_less)
  have "\<exists>s' i v. i \<in> set (lockable ?c) \<and> i \<noteq> ?c \<and> v \<in> set (bcache_bucket s ! i) \<and>
      v \<in> set (candidates ?c s) \<and> v < length (bcache_buf s) \<and>
      ?r = (if lock (bcache_buf s ! v) = None then Inr (s', v) else Inl (Sleeps, s')) \<and>
      bcache_buf s' =
              (bcache_buf s)[v := (bcache_buf s ! v)\<lparr>dev := d, blockno := bn, valid := 0,
                 refcnt := 1,
                 lock := (if lock (bcache_buf s ! v) = None then Some p
                          else lock (bcache_buf s ! v))\<rparr>] \<and>
      bcache_bucket s' =
              (bcache_bucket s)[i := remove1 v (bcache_bucket s ! i),
                                ?c := bcache_bucket s ! ?c @ [v]]"
    using assms(1,2)
  proof (cases rule: bget_miss_cases [of s d bn p])
    case (panic s')
    from panic(7) assms(3) show ?thesis by auto
  next
    case (moved s' i v)
    from moved(1,2,3,4,5,8,9,10) show ?thesis by (intro exI conjI)
  qed
  then obtain s' i v where iv: "i \<in> set (lockable ?c)" "i \<noteq> ?c" "v \<in> set (bcache_bucket s ! i)"
      "v \<in> set (candidates ?c s)" "v < length (bcache_buf s)"
    and r: "?r = (if lock (bcache_buf s ! v) = None then Inr (s', v) else Inl (Sleeps, s'))"
    and bf: "bcache_buf s' =
              (bcache_buf s)[v := (bcache_buf s ! v)\<lparr>dev := d, blockno := bn, valid := 0,
                 refcnt := 1,
                 lock := (if lock (bcache_buf s ! v) = None then Some p
                          else lock (bcache_buf s ! v))\<rparr>]"
    and bk': "bcache_bucket s' =
              (bcache_bucket s)[i := remove1 v (bcache_bucket s ! i),
                                ?c := bcache_bucket s ! ?c @ [v]]"
    by (elim exE conjE)
  from assms(4) iv(4) have free: "lock (bcache_buf s ! v) = None" by blast
  from r free have ret: "?r = Inr (s', v)" by simp
  from iv(1) have i: "i < NBUCKET" by (simp add: in_lockable_iff)
  have di: "distinct (bcache_bucket s ! i)"
    using wf(4) i wf(2) by (simp add: distinct_concat_nth)
  have others: "v \<notin> set (bcache_bucket s ! k)" if "k < NBUCKET" "k \<noteq> i" for k
    using disjoint_concat_nth [OF wf(4), of i k v] that i wf(2) iv(3) by simp
  have at_i: "bcache_bucket s' ! i = remove1 v (bcache_bucket s ! i)"
    using bk' iv(2) i wf(2) by simp
  have at_c: "bcache_bucket s' ! ?c = bcache_bucket s ! ?c @ [v]"
    using bk' c wf(2) by simp
  have gone: "v \<notin> set (bcache_bucket s' ! i)"
    using at_i di by simp
  have once: "count_list (bcache_bucket s' ! ?c) v = 1"
    using at_c others [OF c iv(2) [symmetric]] by (simp add: count_list_0_iff)
  have nowhere: "\<forall>k < NBUCKET. k \<noteq> ?c \<longrightarrow> v \<notin> set (bcache_bucket s' ! k)"
  proof (intro allI impI)
    fix k assume k: "k < NBUCKET" "k \<noteq> ?c"
    show "v \<notin> set (bcache_bucket s' ! k)"
    proof (cases "k = i")
      case True
      with gone show ?thesis by simp
    next
      case False
      with k bk' have "bcache_bucket s' ! k = bcache_bucket s ! k" by simp
      with others [OF k(1) False] show ?thesis by simp
    qed
  qed
  have bf': "bcache_buf s' =
           (bcache_buf s)[v := (bcache_buf s ! v)\<lparr>dev := d, blockno := bn, valid := 0,
                                 refcnt := 1, lock := Some p\<rparr>]"
    using bf free by simp
  have fields: "dev (bcache_buf s' ! v) = d \<and> blockno (bcache_buf s' ! v) = bn
       \<and> valid (bcache_buf s' ! v) = 0 \<and> refcnt (bcache_buf s' ! v) = 1
       \<and> lock (bcache_buf s' ! v) = Some p"
    using bf' iv(5) by simp
  show ?thesis
    apply (rule conjI [OF shard])
    apply (rule exI [of _ s'])
    apply (rule exI [of _ v])
    apply (rule exI [of _ i])
    using ret i iv(2) iv(3) bk' gone once nowhere bf' fields
    apply (intro conjI)
                 apply (simp_all only: simp_thms)
    done
qed

theorem bget_miss_recycles_witness:
  "wf_bcache ex_pool \<and> miss 1 13 ex_pool
   \<and> candidates (bucket_of 13) ex_pool = [1, 2]
   \<and> time (bcache_buf ex_pool ! 1) < 0xffffffff
   \<and> lock (bcache_buf ex_pool ! 1) = None \<and> lock (bcache_buf ex_pool ! 2) = None
   \<and> returned (bget 1 1 13 ex_pool) = Some 1
   \<and> bcache_bucket (final_state (bget 1 1 13 ex_pool)) =
       [[0, 1], [4], [], [], [], [], [], [], [2, 3], [], [], [], []]"
proof -
  have m: "miss 1 13 ex_pool" by code_simp
  have c: "candidates (bucket_of 13) ex_pool = [1, 2]" by code_simp
  have t: "time (bcache_buf ex_pool ! 1) < 0xffffffff" by code_simp
  have l: "lock (bcache_buf ex_pool ! 1) = None" "lock (bcache_buf ex_pool ! 2) = None"
    by code_simp+
  have h3: "\<exists>b \<in> set (candidates (bucket_of 13) ex_pool). time (bcache_buf ex_pool ! b) < 0xffffffff"
    using c t by simp
  have h4: "\<forall>b \<in> set (candidates (bucket_of 13) ex_pool). lock (bcache_buf ex_pool ! b) = None"
    using c l by simp
  have bk: "bcache_bucket ex_pool = [[0], [4], [], [], [], [], [], [1], [2, 3], [], [], [], []]"
    by (simp add: ex_pool_def)
  have b13: "bucket_of 13 = 0" by code_simp
  from bget_miss_recycles [OF wf_ex_pool m h3 h4, of 1]
  obtain s' v i where r: "bget 1 1 13 ex_pool = Inr (s', v)"
    and vi: "i < NBUCKET" "v \<in> set (bcache_bucket ex_pool ! i)"
    and s': "bcache_bucket s' =
           (bcache_bucket ex_pool)[i := remove1 v (bcache_bucket ex_pool ! i),
                             bucket_of 13 := bcache_bucket ex_pool ! bucket_of 13 @ [v]]"
    by blast
  have rv: "returned (bget 1 1 13 ex_pool) = Some 1" by code_simp
  with r have v: "v = 1" by simp
  have "i = 7"
    using vi unfolding v bk NBUCKET_def
    by (auto simp: nth_Cons' less_Suc_eq numeral_eq_Suc split: if_splits)
  with s' v r b13 have "bcache_bucket (final_state (bget 1 1 13 ex_pool)) =
       [[0, 1], [4], [], [], [], [], [], [], [2, 3], [], [], [], []]"
    by (simp add: bk)
  with wf_ex_pool m c t l rv show ?thesis by simp
qed

section \<open>Referenced buffers are not recycled\<close>

text \<open>
  C6. The miss path never recycles a buffer whose \<open>refcnt\<close> is not 0: every victim it
  returns had \<open>refcnt = 0\<close> when the scan ran, so a held or pinned buffer \<open>b\<close> is not
  returned, and whatever the outcome of the call the buffer \<open>b\<close> is left as it was.
  \<^verbatim>\<open>bunpin\<close> on a buffer pinned once brings the count back to 0 and the buffer
  is a candidate again: when it is on a lockable shard's chain, unlocked, and idle for
  longer than every other candidate, the next miss recycles it.
\<close>

theorem bget_skips_referenced:
  assumes "wf_bcache s" and "miss d bn s" and "b < length (bcache_buf s)"
  shows "(\<forall>s' v. bget p d bn s = Inr (s', v) \<longrightarrow> refcnt (bcache_buf s ! v) = 0)
       \<and> (refcnt (bcache_buf s ! b) \<noteq> 0 \<longrightarrow>
            returned (bget p d bn s) \<noteq> Some b
            \<and> bcache_buf (final_state (bget p d bn s)) ! b = bcache_buf s ! b)
       \<and> (refcnt (bcache_buf s ! b) = 1 \<longrightarrow> refcnt (bcache_buf (bunpin b s) ! b) = 0)
       \<and> (refcnt (bcache_buf s ! b) = 1
            \<and> (\<exists>j \<in> set (lockable (bucket_of bn)). b \<in> set (bcache_bucket s ! j))
            \<and> lock (bcache_buf s ! b) = None \<and> time (bcache_buf s ! b) < 0xffffffff
            \<and> (\<forall>b' \<in> set (candidates (bucket_of bn) s).
                  time (bcache_buf s ! b) < time (bcache_buf s ! b'))
          \<longrightarrow> returned (bget p d bn (bunpin b s)) = Some b)"
proof -
  let ?c = "bucket_of bn"
  have one: "\<forall>s' v. bget p d bn s = Inr (s', v) \<longrightarrow> refcnt (bcache_buf s ! v) = 0"
    using bget_miss_victim [OF assms(1,2)] by (auto simp: in_candidates_iff)
  have untouched: "bcache_buf (final_state (bget p d bn s)) ! b = bcache_buf s ! b"
    if "refcnt (bcache_buf s ! b) \<noteq> 0"
    using assms(1,2)
  proof (cases rule: bget_miss_cases [of s d bn p])
    case (panic s')
    then show ?thesis by simp
  next
    case (moved s' i v)
    from moved(4) that have "v \<noteq> b" by (auto simp: in_candidates_iff)
    moreover from moved(8) have "final_state (bget p d bn s) = s'"
      by (cases "lock (bcache_buf s ! v) = None") simp_all
    ultimately show ?thesis using moved(9) by simp
  qed
  have two: "refcnt (bcache_buf s ! b) \<noteq> 0 \<longrightarrow>
            returned (bget p d bn s) \<noteq> Some b
            \<and> bcache_buf (final_state (bget p d bn s)) ! b = bcache_buf s ! b"
    using one untouched by (auto simp: returned_Some)
  have three: "refcnt (bcache_buf s ! b) = 1 \<longrightarrow> refcnt (bcache_buf (bunpin b s) ! b) = 0"
    using assms(3) by simp
  have four: "refcnt (bcache_buf s ! b) = 1
            \<and> (\<exists>j \<in> set (lockable ?c). b \<in> set (bcache_bucket s ! j))
            \<and> lock (bcache_buf s ! b) = None \<and> time (bcache_buf s ! b) < 0xffffffff
            \<and> (\<forall>b' \<in> set (candidates ?c s).
                  time (bcache_buf s ! b) < time (bcache_buf s ! b'))
          \<longrightarrow> returned (bget p d bn (bunpin b s)) = Some b"
  proof (intro impI, elim conjE)
    assume h: "refcnt (bcache_buf s ! b) = 1"
      "\<exists>j \<in> set (lockable ?c). b \<in> set (bcache_bucket s ! j)"
      "lock (bcache_buf s ! b) = None" "time (bcache_buf s ! b) < 0xffffffff"
      "\<forall>b' \<in> set (candidates ?c s). time (bcache_buf s ! b) < time (bcache_buf s ! b')"
    let ?u = "bunpin b s"
    have wf: "wf_bcache ?u" using assms(1) by (simp add: wf_bunpin)
    have ms: "miss d bn ?u" using assms(2) by (simp add: miss_bunpin)
    have tm: "time (bcache_buf ?u ! k) = time (bcache_buf s ! k)" for k
      by (simp add: nth_refcnt_upd)
    have lk: "lock (bcache_buf ?u ! k) = lock (bcache_buf s ! k)" for k
      by (simp add: nth_refcnt_upd)
    from h(2) obtain j where j: "j < NBUCKET" "can_lock (int ?c) (int j) = 1"
      "b \<in> set (bcache_bucket s ! j)"
      by (auto simp: in_lockable_iff)
    have "refcnt (bcache_buf ?u ! b) = 0" using h(1) assms(3) by simp
    with j have bc: "b \<in> set (candidates ?c ?u)"
      unfolding in_candidates_iff bunpin_simps(2) by blast
    have oc: "k \<in> set (candidates ?c s)" if "k \<in> set (candidates ?c ?u)" "k \<noteq> b" for k
    proof -
      from that(2) have "refcnt (bcache_buf ?u ! k) = refcnt (bcache_buf s ! k)"
        by (simp add: nth_refcnt_upd)
      with that(1) show ?thesis
        unfolding in_candidates_iff bunpin_simps(2) by simp
    qed
    from wf ms show "returned (bget p d bn ?u) = Some b"
    proof (cases rule: bget_miss_cases [of ?u d bn p])
      case (panic s')
      from panic(7) bc have "time (bcache_buf ?u ! b) = 0xffffffff" by blast
      with h(4) show ?thesis unfolding tm by simp
    next
      case (moved s' i v)
      have "v = b"
      proof (rule ccontr)
        assume ne: "v \<noteq> b"
        from oc [OF moved(4) ne] h(5)
        have "time (bcache_buf s ! b) < time (bcache_buf s ! v)" by blast
        moreover from moved(7) bc have "time (bcache_buf s ! v) \<le> time (bcache_buf s ! b)"
          unfolding tm by blast
        ultimately show False by simp
      qed
      with moved(8) h(3) show ?thesis unfolding lk by simp
    qed
  qed
  from one two three four show ?thesis by (intro conjI)
qed

theorem bget_skips_referenced_witness:
  "wf_bcache ex_pool \<and> miss 1 13 ex_pool \<and> 3 < length (bcache_buf ex_pool)
   \<and> refcnt (bcache_buf ex_pool ! 3) = 1 \<and> 8 \<in> set (lockable (bucket_of 13))
   \<and> 3 \<in> set (bcache_bucket ex_pool ! 8) \<and> lock (bcache_buf ex_pool ! 3) = None
   \<and> time (bcache_buf ex_pool ! 3) = 3 \<and> candidates (bucket_of 13) ex_pool = [1, 2]
   \<and> time (bcache_buf ex_pool ! 1) = 5 \<and> time (bcache_buf ex_pool ! 2) = 9
   \<and> returned (bget 1 1 13 ex_pool) \<noteq> Some 3
   \<and> refcnt (bcache_buf (bunpin 3 ex_pool) ! 3) = 0
   \<and> returned (bget 1 1 13 (bunpin 3 ex_pool)) = Some 3"
proof -
  have m: "miss 1 13 ex_pool" by code_simp
  have n: "3 < length (bcache_buf ex_pool)" by code_simp
  have f: "refcnt (bcache_buf ex_pool ! 3) = 1" "8 \<in> set (lockable (bucket_of 13))"
    "3 \<in> set (bcache_bucket ex_pool ! 8)" "lock (bcache_buf ex_pool ! 3) = None"
    "time (bcache_buf ex_pool ! 3) = 3" "candidates (bucket_of 13) ex_pool = [1, 2]"
    "time (bcache_buf ex_pool ! 1) = 5" "time (bcache_buf ex_pool ! 2) = 9"
    by code_simp+
  note T = bget_skips_referenced [OF wf_ex_pool m n, of 1]
  from T f(1) have a: "returned (bget 1 1 13 ex_pool) \<noteq> Some 3" by simp
  from T f(1) have b: "refcnt (bcache_buf (bunpin 3 ex_pool) ! 3) = 0" by simp
  have "\<exists>j \<in> set (lockable (bucket_of 13)). 3 \<in> set (bcache_bucket ex_pool ! j)"
    using f(2,3) by blast
  moreover have "\<forall>b' \<in> set (candidates (bucket_of 13) ex_pool).
       time (bcache_buf ex_pool ! 3) < time (bcache_buf ex_pool ! b')"
    using f(5-8) by simp
  moreover have "time (bcache_buf ex_pool ! 3) < 0xffffffff" using f(5) by simp
  ultimately have c: "returned (bget 1 1 13 (bunpin 3 ex_pool)) = Some 3"
    using T f(1,4) by blast
  from wf_ex_pool m n f a b c show ?thesis by simp
qed

section \<open>bunpin at count zero\<close>

text \<open>
  C10, as stated, does not hold in its last part: after \<^verbatim>\<open>bunpin\<close> has wrapped the count of
  an unreferenced buffer to its largest value, one increment (\<^verbatim>\<open>bpin\<close>) wraps it back to
  0, and the next miss can recycle the buffer: with a 32-bit count, buffer 1 of \<open>ex_pool\<close>
  is recycled for block 13 after \<^verbatim>\<open>bunpin\<close> and \<^verbatim>\<open>bpin\<close>.
\<close>

theorem bunpin_wraps_forever_counterexample:
  "refcnt (bcache_buf ex_pool ! 1) = 0
   \<and> refcnt (bcache_buf (bunpin 1 ex_pool) ! 1) = 0xffffffff
   \<and> refcnt (bcache_buf (bpin 1 (bunpin 1 ex_pool)) ! 1) = 0
   \<and> miss 1 13 (bpin 1 (bunpin 1 ex_pool))
   \<and> returned (bget 1 1 13 (bpin 1 (bunpin 1 ex_pool))) = Some 1"
  by code_simp

text \<open>
  C10, amended. \<^verbatim>\<open>bunpin\<close> decrements without a check: on a buffer whose count is 0 it
  does not fail, the count, an unsigned \<open>w\<close>-bit value, wraps to \<open>2^w - 1\<close>, which is not
  0, and in the state it leaves no miss recycles that buffer; the exclusion lasts while the
  count is not 0, and one \<^verbatim>\<open>bpin\<close> brings the count back to 0.
\<close>

theorem bunpin_zero_wraps:
  fixes s :: "('w::len) word kernel"
  assumes "wf_bcache s" and "b < length (bcache_buf s)" and "refcnt (bcache_buf s ! b) = 0"
  shows "unat (refcnt (bcache_buf (bunpin b s) ! b)) = 2 ^ LENGTH('w) - 1
       \<and> refcnt (bcache_buf (bunpin b s) ! b) \<noteq> 0
       \<and> (\<forall>p d bn. miss d bn (bunpin b s) \<longrightarrow> returned (bget p d bn (bunpin b s)) \<noteq> Some b)
       \<and> refcnt (bcache_buf (bpin b (bunpin b s)) ! b) = 0"
proof -
  have r: "refcnt (bcache_buf (bunpin b s) ! b) = - 1"
    using assms(2,3) by simp
  have u: "unat (refcnt (bcache_buf (bunpin b s) ! b)) = 2 ^ LENGTH('w) - 1"
    unfolding r by (simp add: unsigned_minus_1_eq_mask mask_eq_exp_minus_1)
  have wf: "wf_bcache (bunpin b s)" using assms(1) by (simp add: wf_bunpin)
  have "returned (bget p d bn (bunpin b s)) \<noteq> Some b" if "miss d bn (bunpin b s)" for p d bn
  proof
    assume "returned (bget p d bn (bunpin b s)) = Some b"
    then obtain s' where "bget p d bn (bunpin b s) = Inr (s', b)"
      by (auto simp: returned_Some)
    from bget_miss_victim [OF wf that this] have "refcnt (bcache_buf (bunpin b s) ! b) = 0"
      by (simp add: in_candidates_iff)
    with r show False by simp
  qed
  moreover have "refcnt (bcache_buf (bpin b (bunpin b s)) ! b) = 0"
    using assms(2,3) by simp
  ultimately show ?thesis using r u by simp
qed

theorem bunpin_zero_wraps_witness:
  "wf_bcache ex_pool \<and> 1 < length (bcache_buf ex_pool) \<and> refcnt (bcache_buf ex_pool ! 1) = 0
   \<and> unat (refcnt (bcache_buf (bunpin 1 ex_pool) ! 1)) = 4294967295
   \<and> miss 1 13 (bunpin 1 ex_pool)
   \<and> returned (bget 1 1 13 (bunpin 1 ex_pool)) \<noteq> Some 1
   \<and> refcnt (bcache_buf (bpin 1 (bunpin 1 ex_pool)) ! 1) = 0"
proof -
  have n: "1 < length (bcache_buf ex_pool)" by code_simp
  have z: "refcnt (bcache_buf ex_pool ! 1) = 0" by code_simp
  have m: "miss 1 13 (bunpin 1 ex_pool)" by code_simp
  note T = bunpin_zero_wraps [OF wf_ex_pool n z]
  from T have "unat (refcnt (bcache_buf (bunpin 1 ex_pool) ! 1)) = 2 ^ LENGTH(32) - 1"
    by (rule conjunct1)
  then have u: "unat (refcnt (bcache_buf (bunpin 1 ex_pool) ! 1)) = 4294967295"
    by simp
  from T m have "returned (bget 1 1 13 (bunpin 1 ex_pool)) \<noteq> Some 1
      \<and> refcnt (bcache_buf (bpin 1 (bunpin 1 ex_pool)) ! 1) = 0"
    by blast
  with wf_ex_pool n z u m show ?thesis by blast
qed

section \<open>bread\<close>

text \<open>
  C7. \<^verbatim>\<open>bread\<close> calls \<^verbatim>\<open>bget\<close> and ends as \<^verbatim>\<open>bget\<close> does when that does not return.
  When \<^verbatim>\<open>bget\<close> returns buffer \<open>b\<close>, \<^verbatim>\<open>bread\<close> returns \<open>b\<close>, locked by the caller
  and marked valid. If \<open>b\<close> came back not valid, exactly one device read of block
  \<open>(dev, blockno)\<close> is performed into its payload and \<open>valid\<close> is set to 1; if it came
  back valid, nothing is read and the state is the one \<^verbatim>\<open>bget\<close> left.
\<close>

theorem bread_reads_iff_invalid:
  assumes "wf_bcache s"
  shows "(\<forall>e. bget p d bn s = Inl e \<longrightarrow> bread p d bn s = Inl e)
       \<and> (\<forall>s1 b. bget p d bn s = Inr (s1, b) \<longrightarrow>
            (\<exists>s2. bread p d bn s = Inr (s2, b)
               \<and> lock (bcache_buf s2 ! b) = Some p \<and> valid (bcache_buf s2 ! b) \<noteq> 0
               \<and> (valid (bcache_buf s1 ! b) = 0 \<longrightarrow>
                    bcache_buf s2 =
                      (bcache_buf s1)[b := (bcache_buf s1 ! b)\<lparr>data := disk s1 (d, bn),
                                                                valid := 1\<rparr>]
                    \<and> disk_log s2 = disk_log s1 @ [DiskRead d bn] \<and> disk s2 = disk s1
                    \<and> bcache_bucket s2 = bcache_bucket s1)
               \<and> (valid (bcache_buf s1 ! b) \<noteq> 0 \<longrightarrow> s2 = s1)))"
proof (intro conjI allI impI)
  fix e assume "bget p d bn s = Inl e"
  then show "bread p d bn s = Inl e" by (simp add: bread_def)
next
  fix s1 b assume r: "bget p d bn s = Inr (s1, b)"
  from bget_returns [OF assms r] have g: "b < length (bcache_buf s1)"
    "lock (bcache_buf s1 ! b) = Some p" "dev (bcache_buf s1 ! b) = d"
    "blockno (bcache_buf s1 ! b) = bn"
    by simp_all
  show "\<exists>s2. bread p d bn s = Inr (s2, b)
               \<and> lock (bcache_buf s2 ! b) = Some p \<and> valid (bcache_buf s2 ! b) \<noteq> 0
               \<and> (valid (bcache_buf s1 ! b) = 0 \<longrightarrow>
                    bcache_buf s2 =
                      (bcache_buf s1)[b := (bcache_buf s1 ! b)\<lparr>data := disk s1 (d, bn),
                                                                valid := 1\<rparr>]
                    \<and> disk_log s2 = disk_log s1 @ [DiskRead d bn] \<and> disk s2 = disk s1
                    \<and> bcache_bucket s2 = bcache_bucket s1)
               \<and> (valid (bcache_buf s1 ! b) \<noteq> 0 \<longrightarrow> s2 = s1)"
  proof (cases "valid (bcache_buf s1 ! b) = 0")
    case True
    let ?s2 = "upd_buf b (\<lambda>x. x\<lparr>valid := 1\<rparr>) (virtio_disk_rw b 0 s1)"
    from r True have "bread p d bn s = Inr (?s2, b)" by (simp add: bread_def Let_def)
    with True g virtio_disk_read [OF g(1)] show ?thesis by simp
  next
    case False
    with r have "bread p d bn s = Inr (s1, b)" by (simp add: bread_def)
    with False g show ?thesis by simp
  qed
qed

theorem bread_reads_iff_invalid_witness:
  "wf_bcache ex_pool
   \<and> returned (bget 1 1 7 ex_pool) = Some 1
   \<and> valid (bcache_buf (final_state (bget 1 1 7 ex_pool)) ! 1) = 1
   \<and> returned (bread 1 1 7 ex_pool) = Some 1
   \<and> disk_log (final_state (bread 1 1 7 ex_pool)) = []
   \<and> returned (bget 1 1 13 ex_pool) = Some 1
   \<and> valid (bcache_buf (final_state (bget 1 1 13 ex_pool)) ! 1) = 0
   \<and> returned (bread 1 1 13 ex_pool) = Some 1
   \<and> disk_log (final_state (bread 1 1 13 ex_pool)) = [DiskRead 1 13]
   \<and> valid (bcache_buf (final_state (bread 1 1 13 ex_pool)) ! 1) = 1"
proof -
  note T = bread_reads_iff_invalid [OF wf_ex_pool, of 1 1]
  have g1: "returned (bget 1 1 7 ex_pool) = Some 1"
    "valid (bcache_buf (final_state (bget 1 1 7 ex_pool)) ! 1) = 1"
    "disk_log (final_state (bget 1 1 7 ex_pool)) = []"
    by code_simp+
  have g2: "returned (bget 1 1 13 ex_pool) = Some 1"
    "valid (bcache_buf (final_state (bget 1 1 13 ex_pool)) ! 1) = 0"
    "disk_log (final_state (bget 1 1 13 ex_pool)) = []"
    by code_simp+
  from g1(1) obtain s1 where s1: "bget 1 1 7 ex_pool = Inr (s1, 1)"
    by (auto simp: returned_Some)
  with g1 have v1: "valid (bcache_buf s1 ! 1) = 1" "disk_log s1 = []" by simp_all
  from T [of 7] s1 obtain s2 where
    "bread 1 1 7 ex_pool = Inr (s2, 1)" "valid (bcache_buf s1 ! 1) \<noteq> 0 \<longrightarrow> s2 = s1"
    by blast
  with v1 have a: "returned (bread 1 1 7 ex_pool) = Some 1"
    "disk_log (final_state (bread 1 1 7 ex_pool)) = []"
    by simp_all
  from g2(1) obtain t1 where t1: "bget 1 1 13 ex_pool = Inr (t1, 1)"
    by (auto simp: returned_Some)
  with g2 have w1: "valid (bcache_buf t1 ! 1) = 0" "disk_log t1 = []" by simp_all
  from T [of 13] t1 obtain t2 where
    "bread 1 1 13 ex_pool = Inr (t2, 1)" "valid (bcache_buf t2 ! 1) \<noteq> 0"
    "valid (bcache_buf t1 ! 1) = 0 \<longrightarrow>
       bcache_buf t2 = (bcache_buf t1)[1 := (bcache_buf t1 ! 1)\<lparr>data := disk t1 (1, 13),
                                                                valid := 1\<rparr>]
       \<and> disk_log t2 = disk_log t1 @ [DiskRead 1 13] \<and> disk t2 = disk t1
       \<and> bcache_bucket t2 = bcache_bucket t1"
    "1 < length (bcache_buf t1)"
    using bget_returns [OF wf_ex_pool t1] by blast
  with w1 have b: "returned (bread 1 1 13 ex_pool) = Some 1"
    "disk_log (final_state (bread 1 1 13 ex_pool)) = [DiskRead 1 13]"
    "valid (bcache_buf (final_state (bread 1 1 13 ex_pool)) ! 1) = 1"
    by simp_all
  from wf_ex_pool g1(1,2) a g2(1,2) b show ?thesis by simp
qed

section \<open>brelse\<close>

text \<open>
  C8. \<^verbatim>\<open>brelse\<close>, called by the holder of the content lock, returns. Its stores to the
  buffer are, in this order: the release of the content lock, with the shard locks as they
  were at the call; the decrement of \<open>refcnt\<close> by one (as an unsigned machine integer),
  with the lock of shard \<open>k = blockno mod NBUCKET\<close> held; and, if and only if the new count
  is 0, the store of \<open>ticks\<close> into \<open>time\<close>, with that lock still held. The shard lock is
  taken once and given back once, and \<open>k\<close> is the owning shard: the buffer is on no other
  shard's chain when the chains follow the rule of membership. No other field of the
  buffer, no other buffer, no chain and nothing of the device changes.
\<close>

theorem brelse_decrements_and_stamps:
  fixes s :: "('w::len) word kernel"
  assumes "b < length (bcache_buf s)" and "holdingsleep p b s"
    and "length (bcache_lock s) = NBUCKET"
  defines "x \<equiv> bcache_buf s ! b" and "l \<equiv> bcache_lock s"
  defines "k \<equiv> unat (blockno x) mod NBUCKET"
  shows "\<exists>s'. brelse p b s = Inr s'
       \<and> bcache_buf s' =
           (bcache_buf s)[b := x\<lparr>lock := None, refcnt := refcnt x - 1,
              time := (if refcnt x - 1 = 0 then ticks s else time x)\<rparr>]
       \<and> refcnt (bcache_buf s' ! b) = refcnt x - 1
       \<and> (refcnt (bcache_buf s' ! b) = 0 \<longrightarrow> time (bcache_buf s' ! b) = ticks s)
       \<and> (refcnt (bcache_buf s' ! b) \<noteq> 0 \<longrightarrow> time (bcache_buf s' ! b) = time x)
       \<and> lock (bcache_buf s' ! b) = None
       \<and> bcache_bucket s' = bcache_bucket s \<and> ticks s' = ticks s
       \<and> disk s' = disk s \<and> disk_log s' = disk_log s
       \<and> bcache_lock s' = l[k := False]
       \<and> lock_log s' = lock_log s @ [l[k := True], l[k := False]]
       \<and> write_log s' = write_log s @
             [(b, x\<lparr>lock := None\<rparr>, l),
              (b, x\<lparr>lock := None, refcnt := refcnt x - 1\<rparr>, l[k := True])] @
             (if refcnt x - 1 = 0
              then [(b, x\<lparr>lock := None, refcnt := refcnt x - 1, time := ticks s\<rparr>, l[k := True])]
              else [])
       \<and> k < NBUCKET \<and> l[k := True] ! k
       \<and> (\<forall>j < length (bcache_bucket s).
             chains_hashed s \<and> b \<in> set (bcache_bucket s ! j) \<longrightarrow> j = k)"
proof -
  have kk: "bucket_of (blockno x) = k"
    by (simp add: k_def bucket_of_def NBUCKET_def unat_mod)
  have kn: "k < NBUCKET"
    by (simp add: k_def NBUCKET_def)
  have held_k: "l[k := True] ! k"
    using kn assms(3) by (simp add: l_def)
  have own: "\<forall>j < length (bcache_bucket s).
             chains_hashed s \<and> b \<in> set (bcache_bucket s ! j) \<longrightarrow> j = k"
    by (auto simp: chains_hashed_def k_def x_def)
  let ?s' = "release k
     (if refcnt x - 1 = 0
      then upd_buf b (\<lambda>y. y\<lparr>time := ticks s\<rparr>)
             (upd_buf b (\<lambda>y. y\<lparr>refcnt := refcnt y - 1\<rparr>) (acquire k (releasesleep b s)))
      else upd_buf b (\<lambda>y. y\<lparr>refcnt := refcnt y - 1\<rparr>) (acquire k (releasesleep b s)))"
  have run: "brelse p b s = Inr ?s'"
    using assms(1,2) kk by (simp add: brelse_def releasesleep_def Let_def x_def)
  have st: "bcache_buf ?s' =
           (bcache_buf s)[b := x\<lparr>lock := None, refcnt := refcnt x - 1,
              time := (if refcnt x - 1 = 0 then ticks s else time x)\<rparr>]"
    using assms(1) by (simp add: releasesleep_def x_def)
  have fr: "bcache_bucket ?s' = bcache_bucket s" "ticks ?s' = ticks s"
    "disk ?s' = disk s" "disk_log ?s' = disk_log s"
    by (simp_all add: releasesleep_def)
  have lk: "bcache_lock ?s' = l[k := False]"
    "lock_log ?s' = lock_log s @ [l[k := True], l[k := False]]"
    by (simp_all add: releasesleep_def l_def)
  have wl: "write_log ?s' = write_log s @
             [(b, x\<lparr>lock := None\<rparr>, l),
              (b, x\<lparr>lock := None, refcnt := refcnt x - 1\<rparr>, l[k := True])] @
             (if refcnt x - 1 = 0
              then [(b, x\<lparr>lock := None, refcnt := refcnt x - 1, time := ticks s\<rparr>, l[k := True])]
              else [])"
    using assms(1) by (simp add: releasesleep_def l_def x_def)
  have fields: "refcnt (bcache_buf ?s' ! b) = refcnt x - 1"
    "refcnt (bcache_buf ?s' ! b) = 0 \<longrightarrow> time (bcache_buf ?s' ! b) = ticks s"
    "refcnt (bcache_buf ?s' ! b) \<noteq> 0 \<longrightarrow> time (bcache_buf ?s' ! b) = time x"
    "lock (bcache_buf ?s' ! b) = None"
    unfolding st using assms(1) by simp_all
  show ?thesis
    apply (rule exI [of _ ?s'])
    using run st fields fr lk wl kn held_k own
    apply (intro conjI)
                    apply assumption+
    done
qed

theorem brelse_decrements_and_stamps_witness:
  "4 < length (bcache_buf ex_pool) \<and> holdingsleep 2 4 ex_pool
   \<and> length (bcache_lock ex_pool) = NBUCKET
   \<and> refcnt (bcache_buf ex_pool ! 4) = 1 \<and> ticks ex_pool = 20
   \<and> unat (blockno (bcache_buf ex_pool ! 4)) mod NBUCKET = 1
   \<and> chains_hashed ex_pool \<and> bcache_bucket ex_pool ! 1 = [4]
   \<and> (\<exists>s'. brelse 2 4 ex_pool = Inr s' \<and> refcnt (bcache_buf s' ! 4) = 0
          \<and> time (bcache_buf s' ! 4) = 20 \<and> lock (bcache_buf s' ! 4) = None
          \<and> lock_log s' = [(replicate 13 False)[1 := True], (replicate 13 False)[1 := False]]
          \<and> length (write_log s') = 3
          \<and> snd (snd (write_log s' ! 0)) = replicate 13 False
          \<and> snd (snd (write_log s' ! 1)) = (replicate 13 False)[1 := True]
          \<and> snd (snd (write_log s' ! 2)) = (replicate 13 False)[1 := True])"
proof -
  have n: "4 < length (bcache_buf ex_pool)" by code_simp
  have h: "holdingsleep 2 4 ex_pool" by code_simp
  have ll: "length (bcache_lock ex_pool) = NBUCKET" by code_simp
  have f: "refcnt (bcache_buf ex_pool ! 4) = 1" "ticks ex_pool = 20"
    "unat (blockno (bcache_buf ex_pool ! 4)) mod NBUCKET = 1"
    "bcache_bucket ex_pool ! 1 = [4]" "bcache_lock ex_pool = replicate 13 False"
    "lock_log ex_pool = []" "write_log ex_pool = []"
    by code_simp+
  have c: "chains_hashed ex_pool" by code_simp
  from brelse_decrements_and_stamps [OF n h ll] obtain s' where
    s': "brelse 2 4 ex_pool = Inr s'"
    "refcnt (bcache_buf s' ! 4) = refcnt (bcache_buf ex_pool ! 4) - 1"
    "refcnt (bcache_buf s' ! 4) = 0 \<longrightarrow> time (bcache_buf s' ! 4) = ticks ex_pool"
    "lock (bcache_buf s' ! 4) = None"
    "lock_log s' = lock_log ex_pool @
       [(bcache_lock ex_pool)[unat (blockno (bcache_buf ex_pool ! 4)) mod NBUCKET := True],
        (bcache_lock ex_pool)[unat (blockno (bcache_buf ex_pool ! 4)) mod NBUCKET := False]]"
    "write_log s' = write_log ex_pool @
       [(4, (bcache_buf ex_pool ! 4)\<lparr>lock := None\<rparr>, bcache_lock ex_pool),
        (4, (bcache_buf ex_pool ! 4)\<lparr>lock := None,
              refcnt := refcnt (bcache_buf ex_pool ! 4) - 1\<rparr>,
         (bcache_lock ex_pool)[unat (blockno (bcache_buf ex_pool ! 4)) mod NBUCKET := True])] @
       (if refcnt (bcache_buf ex_pool ! 4) - 1 = 0
        then [(4, (bcache_buf ex_pool ! 4)\<lparr>lock := None,
                    refcnt := refcnt (bcache_buf ex_pool ! 4) - 1, time := ticks ex_pool\<rparr>,
               (bcache_lock ex_pool)[unat (blockno (bcache_buf ex_pool ! 4)) mod NBUCKET := True])]
        else [])"
    by blast
  from s'(2,3,5,6) have
    "refcnt (bcache_buf s' ! 4) = 0 \<and> time (bcache_buf s' ! 4) = 20
     \<and> lock_log s' = [(replicate 13 False)[1 := True], (replicate 13 False)[1 := False]]
     \<and> length (write_log s') = 3
     \<and> snd (snd (write_log s' ! 0)) = replicate 13 False
     \<and> snd (snd (write_log s' ! 1)) = (replicate 13 False)[1 := True]
     \<and> snd (snd (write_log s' ! 2)) = (replicate 13 False)[1 := True]"
    unfolding f by simp
  with s'(1,4) n h ll f(1-4) c show ?thesis by blast
qed

section \<open>The content lock is required\<close>

text \<open>
  C9. Called by a process that does not hold the buffer's content lock, \<^verbatim>\<open>bwrite\<close>
  panics with "bwrite" and \<^verbatim>\<open>brelse\<close> with "brelse", in the unchanged state. Called by
  the holder, \<^verbatim>\<open>bwrite\<close> returns after one device write of the buffer's payload to block
  \<open>(dev, blockno)\<close>; no buffer field (content lock and \<open>refcnt\<close> included), no chain and
  no shard lock changes.
\<close>

theorem bwrite_brelse_need_lock:
  "(\<not> holdingsleep p b s \<longrightarrow>
       bwrite p b s = Inl (Panic ''bwrite'', s) \<and> brelse p b s = Inl (Panic ''brelse'', s))
   \<and> (holdingsleep p b s \<longrightarrow>
       (\<exists>s'. bwrite p b s = Inr s'
          \<and> bcache_buf s' = bcache_buf s \<and> bcache_bucket s' = bcache_bucket s
          \<and> bcache_lock s' = bcache_lock s \<and> lock_log s' = lock_log s \<and> ticks s' = ticks s
          \<and> disk s' = (disk s)((dev (bcache_buf s ! b), blockno (bcache_buf s ! b)) :=
                                 data (bcache_buf s ! b))
          \<and> disk_log s' = disk_log s @
               [DiskWrite (dev (bcache_buf s ! b)) (blockno (bcache_buf s ! b))
                  (data (bcache_buf s ! b))]))"
  by (simp add: bwrite_def brelse_def virtio_disk_rw_def Let_def)

theorem bwrite_brelse_need_lock_witness:
  "\<not> holdingsleep 1 4 ex_pool
   \<and> bwrite 1 4 ex_pool = Inl (Panic ''bwrite'', ex_pool)
   \<and> brelse 1 4 ex_pool = Inl (Panic ''brelse'', ex_pool)
   \<and> holdingsleep 2 4 ex_pool
   \<and> (\<exists>s'. bwrite 2 4 ex_pool = Inr s' \<and> bcache_buf s' = bcache_buf ex_pool
          \<and> disk_log s' = [DiskWrite 1 1 []])"
proof -
  have n: "\<not> holdingsleep 1 4 ex_pool" by code_simp
  have h: "holdingsleep 2 4 ex_pool" by code_simp
  have f: "dev (bcache_buf ex_pool ! 4) = 1" "blockno (bcache_buf ex_pool ! 4) = 1"
    "data (bcache_buf ex_pool ! 4) = []" "disk_log ex_pool = []"
    by code_simp+
  from bwrite_brelse_need_lock [of 1 4 ex_pool] n
  have a: "bwrite 1 4 ex_pool = Inl (Panic ''bwrite'', ex_pool)"
    "brelse 1 4 ex_pool = Inl (Panic ''brelse'', ex_pool)"
    by blast+
  from bwrite_brelse_need_lock [of 2 4 ex_pool] h f
  have "\<exists>s'. bwrite 2 4 ex_pool = Inr s' \<and> bcache_buf s' = bcache_buf ex_pool
          \<and> disk_log s' = [DiskWrite 1 1 []]"
    by auto
  with n h a show ?thesis by blast
qed

section \<open>Shard locks held during a call of bget\<close>

text \<open>
  C4, as stated, does not hold: \<^verbatim>\<open>bget\<close> takes the target shard's lock at line 87 and keeps
  it through the whole scan, so the scanner holds that lock, the lock of the best
  candidate's shard and the lock of the scan position together. In \<open>ex_pool\<close>, a request
  for block 13 holds the locks of shards 0, 7 and 8 after its third lock operation.
\<close>

theorem bget_two_locks_counterexample:
  "locks_held (bcache_lock ex_pool) = 0 \<and> lock_log ex_pool = [] \<and> miss 1 13 ex_pool
   \<and> lock_log (final_state (bget 1 1 13 ex_pool)) ! 2 =
       [True, False, False, False, False, False, False, True, True, False, False, False, False]
   \<and> locks_held (lock_log (final_state (bget 1 1 13 ex_pool)) ! 2) = 3"
  by code_simp

text \<open>
  C4, amended. Entered with no shard lock held, \<^verbatim>\<open>bget\<close> holds at most three shard locks
  after each of its \<^verbatim>\<open>acquire\<close> and \<^verbatim>\<open>release\<close> operations (the target shard's, the
  scan position's and the best candidate's), on every path, and when it returns it holds
  none.
\<close>

theorem bget_lock_count:
  assumes "locks_held (bcache_lock s) = 0" and "lock_log s = []"
  shows "(\<forall>l \<in> set (lock_log (final_state (bget p d bn s))). locks_held l \<le> 3)
       \<and> (returned (bget p d bn s) \<noteq> None \<longrightarrow>
            locks_held (bcache_lock (final_state (bget p d bn s))) = 0)"
proof -
  let ?t = "bucket_of bn"
  let ?s1 = "acquire ?t s"
  let ?r = "bget p d bn s"
  from assms(1) have h0: "held (bcache_lock s) = {}" by (simp add: locks_held_0)
  have h1: "held (bcache_lock ?s1) \<subseteq> {?t}"
    using held_set_True [of "bcache_lock s" ?t] h0 by simp
  then have "held (bcache_lock ?s1) \<subseteq> {?t, ?t, ?t}" by simp
  then have "locks_held (bcache_lock ?s1) \<le> 3" by (rule locks_held_3)
  with assms(2) have l1: "\<forall>l \<in> set (lock_log ?s1). locks_held l \<le> 3" by simp
  show ?thesis
  proof (cases "miss d bn s")
    case True
    obtain i m s2 where sc: "scan (int ?t) ?s1 = (i, m, s2)"
      by (metis prod_cases3)
    note U = bget_miss_unfold [OF True sc, of p]
    from scan_locks [OF sc h1 l1]
    have h2: "held (bcache_lock s2) \<subseteq> {?t} \<union> (if i = -1 then {} else {nat i})"
      and l2: "\<forall>l \<in> set (lock_log s2). locks_held l \<le> 3"
      by simp_all
    show ?thesis
    proof (cases "i = -1")
      case True
      with U l2 show ?thesis by simp
    next
      case False
      with U have r: "?r = move_buf p d bn ?t i m s2" by simp
      from h2 False have h3: "held (bcache_lock s2) \<subseteq> {?t, nat i}" by auto
      note M = move_buf_locks [OF l2 h3, of p d bn m, folded r]
      from M have "returned ?r \<noteq> None \<longrightarrow> held (bcache_lock (final_state ?r)) = {}"
        by (auto elim: ssubst)
      with M show ?thesis by (simp add: locks_held_0)
    qed
  next
    case False
    then obtain b where l: "lookup (bcache_buf s) d bn (bcache_bucket s ! ?t) = Some b"
      by (auto simp: miss_def)
    let ?l = "bcache_lock s"
    have lg: "lock_log (final_state ?r) = lock_log s @ [?l[?t := True], ?l[?t := False]]"
      and lk: "bcache_lock (final_state ?r) = ?l[?t := False]"
      using l by (auto simp: bget_def acquiresleep_def Let_def split: option.splits)
    have a: "locks_held (?l[?t := True]) \<le> 3"
      using \<open>locks_held (bcache_lock ?s1) \<le> 3\<close> by simp
    have "locks_held (?l[?t := False]) \<le> locks_held ?l" by (rule locks_held_release)
    with assms(1) have b: "locks_held (?l[?t := False]) = 0" by simp
    from lg lk a b assms(2) show ?thesis by simp
  qed
qed

theorem bget_lock_count_witness:
  "locks_held (bcache_lock ex_pool) = 0 \<and> lock_log ex_pool = []
   \<and> 2 < length (lock_log (final_state (bget 1 1 13 ex_pool)))
   \<and> locks_held (lock_log (final_state (bget 1 1 13 ex_pool)) ! 2) \<le> 3
   \<and> returned (bget 1 1 13 ex_pool) = Some 1
   \<and> locks_held (bcache_lock (final_state (bget 1 1 13 ex_pool))) = 0"
proof -
  have a: "locks_held (bcache_lock ex_pool) = 0" by code_simp
  have b: "lock_log ex_pool = []" by code_simp
  have n: "2 < length (lock_log (final_state (bget 1 1 13 ex_pool)))" by code_simp
  have r: "returned (bget 1 1 13 ex_pool) = Some 1" by code_simp
  note T = bget_lock_count [OF a b, of 1 1 13]
  from n have "lock_log (final_state (bget 1 1 13 ex_pool)) ! 2
      \<in> set (lock_log (final_state (bget 1 1 13 ex_pool)))"
    by (rule nth_mem)
  with T have c: "locks_held (lock_log (final_state (bget 1 1 13 ex_pool)) ! 2) \<le> 3"
    by blast
  from T r have d: "locks_held (bcache_lock (final_state (bget 1 1 13 ex_pool))) = 0"
    by simp
  from a b n c r d show ?thesis by simp
qed

end
